theory Spec2Isabelle
  imports Main "HOL-Library.Sublist" "HOL-Library.Char_ord" "HOL-Library.List_Lexorder"
begin

section \<open>Strings and character classes\<close>

text \<open>
  A Python \<open>str\<close> is a sequence of code points. The model covers the code points
  below 256: a \<^typ>\<open>char\<close> is the code point \<open>of_char c\<close>, and a \<^typ>\<open>string\<close> is a
  \<open>str\<close> all of whose code points lie in that range. The three tables below are those
  of CPython 3 on this range: \<open>str.isspace\<close> (which is also the class \<open>\s\<close> of \<open>re\<close>,
  and what \<open>str.split\<close> and \<open>str.strip\<close> use), the class \<open>\w\<close> of \<open>re\<close>, and
  \<open>str.lower\<close>.
\<close>

definition is_space :: "char \<Rightarrow> bool" where
  "is_space c = (let n = (of_char c :: nat) in
     (9 \<le> n \<and> n \<le> 13) \<or> (28 \<le> n \<and> n \<le> 32) \<or> n = 133 \<or> n = 160)"

definition is_word :: "char \<Rightarrow> bool" where
  "is_word c = (let n = (of_char c :: nat) in
     (48 \<le> n \<and> n \<le> 57) \<or> (65 \<le> n \<and> n \<le> 90) \<or> n = 95 \<or> (97 \<le> n \<and> n \<le> 122) \<or>
     n = 170 \<or> (178 \<le> n \<and> n \<le> 179) \<or> n = 181 \<or> (185 \<le> n \<and> n \<le> 186) \<or>
     (188 \<le> n \<and> n \<le> 190) \<or> (192 \<le> n \<and> n \<le> 214) \<or> (216 \<le> n \<and> n \<le> 246) \<or>
     (248 \<le> n \<and> n \<le> 255))"

definition lower_char :: "char \<Rightarrow> char" where
  "lower_char c = (let n = (of_char c :: nat) in
     if (65 \<le> n \<and> n \<le> 90) \<or> (192 \<le> n \<and> n \<le> 214) \<or> (216 \<le> n \<and> n \<le> 222)
     then char_of (n + 32) else c)"

text \<open>\<open>s.lower()\<close>\<close>

definition py_lower :: "string \<Rightarrow> string" where
  "py_lower s = map lower_char s"

text \<open>\<open>s.strip()\<close>: leading and trailing whitespace removed.\<close>

definition py_strip :: "string \<Rightarrow> string" where
  "py_strip s = rev (dropWhile is_space (rev (dropWhile is_space s)))"

text \<open>
  \<open>s.split()\<close>: the maximal runs of characters that are not whitespace, in order; no
  empty string is ever produced.
\<close>

function py_split :: "string \<Rightarrow> string list" where
  "py_split s =
     (case dropWhile is_space s of
        [] \<Rightarrow> []
      | c # cs \<Rightarrow> (c # takeWhile (\<lambda>x. \<not> is_space x) cs)
                 # py_split (dropWhile (\<lambda>x. \<not> is_space x) cs))"
  by pat_completeness auto
termination
proof (relation "measure length")
  fix s :: string and c cs
  assume d: "dropWhile is_space s = c # cs"
  have "length (dropWhile (\<lambda>x. \<not> is_space x) cs) \<le> length cs"
    by (rule length_dropWhile_le)
  moreover have "length (c # cs) \<le> length s"
    using length_dropWhile_le [of is_space s] d by simp
  ultimately show "(dropWhile (\<lambda>x. \<not> is_space x) cs, s) \<in> measure length"
    by simp
qed simp

declare py_split.simps [simp del]

text \<open>
  \<open>s.find(sub)\<close>: the least index at which \<open>sub\<close> occurs in \<open>s\<close>, or \<open>-1\<close>. The
  auxiliary function carries the index of the position it looks at.
\<close>

fun find_from :: "nat \<Rightarrow> string \<Rightarrow> string \<Rightarrow> int" where
  "find_from i sub [] = (if sub = [] then int i else - 1)"
| "find_from i sub (c # cs) =
     (if prefix sub (c # cs) then int i else find_from (Suc i) sub cs)"

definition py_find :: "string \<Rightarrow> string \<Rightarrow> int" where
  "py_find s sub = find_from 0 sub s"

text \<open>
  \<open>s[lo:hi]\<close> with Python's rules: a negative bound counts from the end, and both bounds
  are clamped to the length.
\<close>

definition slice_bound :: "nat \<Rightarrow> int \<Rightarrow> nat" where
  "slice_bound n i = (if i < 0 then nat (max 0 (int n + i)) else min n (nat i))"

definition py_slice :: "'a list \<Rightarrow> int \<Rightarrow> int \<Rightarrow> 'a list" where
  "py_slice xs lo hi =
     (let l = slice_bound (length xs) lo; h = slice_bound (length xs) hi
      in take (h - l) (drop l xs))"

text \<open>\<open>s.replace(old, new)\<close> for a pattern \<open>old\<close> of one character.\<close>

definition py_replace :: "char \<Rightarrow> string \<Rightarrow> string \<Rightarrow> string" where
  "py_replace old new s = concat (map (\<lambda>c. if c = old then new else [c]) s)"

text \<open>\<open>sep.join(parts)\<close>\<close>

fun py_join :: "string \<Rightarrow> string list \<Rightarrow> string" where
  "py_join sep [] = []"
| "py_join sep [p] = p"
| "py_join sep (p # q # ps) = p @ sep @ py_join sep (q # ps)"

section \<open>search.py: the text functions of \<open>Search\<close>\<close>

text \<open>
  \<open>re.sub(r'\s+', ' ', query)\<close>: every maximal run of whitespace becomes one space.
\<close>

function collapse_ws :: "string \<Rightarrow> string" where
  "collapse_ws [] = []"
| "collapse_ws (c # cs) =
     (if is_space c then CHR '' '' # collapse_ws (dropWhile is_space cs)
      else c # collapse_ws cs)"
  by pat_completeness auto
termination
  by (relation "measure length") (auto simp: le_imp_less_Suc length_dropWhile_le)

text \<open>
  The class \<open>[^\w\s-]\<close> of \<open>_normalize_query\<close> is the complement of \<open>keep_char\<close>;
  \<open>re.sub(r'[^\w\s-]', '', query)\<close> removes every character of the class.
\<close>

definition keep_char :: "char \<Rightarrow> bool" where
  "keep_char c = (is_word c \<or> is_space c \<or> c = CHR ''-'')"

definition normalize_query :: "string \<Rightarrow> string" where
  "normalize_query query =
     (let query = py_lower query;
          query = filter keep_char query;
          query = py_strip (collapse_ws query)
      in query)"

text \<open>
  \<open>re.sub(r'<[^>]+>', '', content)\<close>: scanning from the left, a \<open><\<close> followed by at
  least one character other than \<open>>\<close> and then by \<open>>\<close> is removed together with
  everything up to that \<open>>\<close>; the greedy \<open>[^>]+\<close> can only stop at the first \<open>>\<close>.
  A \<open><\<close> with no such continuation (as in \<open><>\<close>, or with no \<open>>\<close> after it) stays.
\<close>

function strip_tags :: "string \<Rightarrow> string" where
  "strip_tags [] = []"
| "strip_tags (c # cs) =
     (if c = CHR ''<'' \<and> takeWhile (\<lambda>x. x \<noteq> CHR ''>'') cs \<noteq> []
         \<and> dropWhile (\<lambda>x. x \<noteq> CHR ''>'') cs \<noteq> []
      then strip_tags (tl (dropWhile (\<lambda>x. x \<noteq> CHR ''>'') cs))
      else c # strip_tags cs)"
  by pat_completeness auto
termination
proof (relation "measure length")
  fix c :: char and cs :: string
  have "length (tl (dropWhile (\<lambda>x. x \<noteq> CHR ''>'') cs)) \<le> length cs"
    using length_dropWhile_le [of "\<lambda>x. x \<noteq> CHR ''>''" cs] by simp
  then show "(tl (dropWhile (\<lambda>x. x \<noteq> CHR ''>'') cs), c # cs) \<in> measure length"
    by simp
qed simp_all

text \<open>
  \<open>get_excerpt(content, query, length=200)\<close>. The position is found in the normalized
  content and then used as an index into the stripped, not normalized, content.
\<close>

definition get_excerpt :: "string \<Rightarrow> string \<Rightarrow> int \<Rightarrow> string \<times> bool" where
  "get_excerpt content query len =
     (if content = [] \<or> query = [] then ([], False)
      else
        let content = strip_tags content;
            query_norm = normalize_query query;
            content_norm = normalize_query content;
            pos = py_find content_norm query_norm
        in if pos = - 1 then
             (if int (length content) \<le> len then (content, False)
              else (py_slice content 0 len @ ''...'', True))
           else
             let start = max 0 (pos - len div 2);
                 end = min (int (length content)) (pos + int (length query) + len div 2);
                 prefix = (if start > 0 then ''...'' else []);
                 suffix = (if end < int (length content) then ''...'' else []);
                 excerpt = prefix @ py_slice content start end @ suffix;
                 has_more = (end < int (length content))
             in (excerpt, has_more))"

text \<open>
  \<open>pattern.sub(r'<mark>\1</mark>', text)\<close> for the pattern \<open>(term)\<close> compiled with
  \<open>re.IGNORECASE\<close> from the escaped, hence literal, \<open>term\<close>: scanning from the left,
  each occurrence of the term up to case is wrapped, and the scan goes on behind it.
  On this range of code points two characters match up to case exactly when
  \<open>lower_char\<close> maps them to the same character. The terms of \<open>highlight_query\<close>
  come from \<open>split\<close> and are never empty; for the empty term the function returns the
  text as it is.
\<close>

function sub_mark :: "string \<Rightarrow> string \<Rightarrow> string" where
  "sub_mark term [] = []"
| "sub_mark term (c # cs) =
     (if term \<noteq> [] \<and> length term \<le> length (c # cs)
         \<and> py_lower (take (length term) (c # cs)) = py_lower term
      then ''<mark>'' @ take (length term) (c # cs) @ ''</mark>''
             @ sub_mark term (drop (length term) (c # cs))
      else c # sub_mark term cs)"
  by pat_completeness auto
termination
  by (relation "measure (\<lambda>(term, s). length s)") auto

text \<open>
  \<open>highlight_query(text, query)\<close>. The source replaces \<open>&\<close> by \<open>&amp;\<close>, \<open><\<close> by \<open><\<close>
  and \<open>>\<close> by \<open>>\<close>, in this order; the loop over the terms is a fold.
\<close>

definition highlight_query :: "string \<Rightarrow> string \<Rightarrow> string" where
  "highlight_query text query =
     (if text = [] \<or> query = [] then text
      else
        let text = py_replace (CHR ''>'') ''>''
                     (py_replace (CHR ''<'') ''<'' (py_replace (CHR ''&'') ''&amp;'' text));
            terms = py_split (normalize_query query)
        in foldl (\<lambda>highlighted term. sub_mark term highlighted) text terms)"

text \<open>
  \<open>_extract_keywords(text, min_length=4, max_keywords=10)\<close>. A Python \<open>dict\<close> keeps
  its keys in the order of their first insertion, so \<open>word_freq\<close> is an association
  list: \<open>dict_set\<close> overwrites the value of a key in place and appends a new key at
  the end. \<open>sorted(..., reverse=True)\<close> is what CPython's \<open>list.sort\<close> does: reverse,
  sort stably in ascending order of the key, reverse again.
\<close>

definition stop_words :: "string list" where
  "stop_words = [''the'', ''be'', ''to'', ''of'', ''and'', ''a'', ''in'', ''that'', ''have'']"

fun dict_set :: "('k \<times> 'v) list \<Rightarrow> 'k \<Rightarrow> 'v \<Rightarrow> ('k \<times> 'v) list" where
  "dict_set [] k v = [(k, v)]"
| "dict_set ((k', v') # d) k v =
     (if k' = k then (k', v) # d else (k', v') # dict_set d k v)"

definition dict_get :: "('k \<times> 'v) list \<Rightarrow> 'k \<Rightarrow> 'v \<Rightarrow> 'v" where
  "dict_get d k dflt = (case map_of d k of None \<Rightarrow> dflt | Some v \<Rightarrow> v)"

definition sorted_reverse :: "('a \<Rightarrow> 'b::linorder) \<Rightarrow> 'a list \<Rightarrow> 'a list" where
  "sorted_reverse key xs = rev (sort_key key (rev xs))"

text \<open>The list \<open>words\<close> of the source after the stop words and short words are removed.\<close>

definition keyword_words :: "string \<Rightarrow> int \<Rightarrow> string list" where
  "keyword_words text min_length =
     (let text = strip_tags text;
          words = py_split (py_lower text)
      in filter (\<lambda>w. int (length w) \<ge> min_length \<and> w \<notin> set stop_words) words)"

definition count_words :: "string list \<Rightarrow> (string \<times> nat) list" where
  "count_words words =
     foldl (\<lambda>word_freq word. dict_set word_freq word (dict_get word_freq word 0 + 1)) [] words"

definition extract_keywords :: "string \<Rightarrow> int \<Rightarrow> int \<Rightarrow> string list" where
  "extract_keywords text min_length max_keywords =
     (let words = keyword_words text min_length;
          word_freq = count_words words;
          keywords = sorted_reverse snd word_freq
      in map fst (py_slice keywords 0 max_keywords))"

text \<open>The position at which a word is first seen in a list of words.\<close>

definition first_index :: "'a list \<Rightarrow> 'a \<Rightarrow> nat" where
  "first_index ws w = length (takeWhile (\<lambda>x. x \<noteq> w) ws)"

subsection \<open>The matcher\<close>

text \<open>
  Modelled from the spec: \<open>models.py\<close> (the classes \<open>Post\<close> and \<open>Page\<close>) is not among the
  sources. The records hold the columns that \<open>Search.search\<close> reads, under the names it
  uses; they are the spec's ContentItem with \<open>title\<close>, \<open>body\<close>, the optional
  \<open>summary\<close>, \<open>visible\<close> and a timestamp. A column that is \<open>NULL\<close> is \<open>None\<close>.
\<close>

record post =
  post_title :: string
  post_content :: string
  post_excerpt :: "string option"
  post_published :: bool
  post_created_at :: int

record page =
  page_title :: string
  page_content :: string
  page_published :: bool

text \<open>
  \<open>column.ilike(f'%{query}%')\<close>: the SQL pattern matches a value that has, somewhere, a
  substring matching \<open>query\<close> up to case, where \<open>_\<close> in the pattern stands for any one
  character (\<open>_normalize_query\<close> keeps \<open>_\<close> and removes \<open>%\<close> and the backslash). A
  \<open>NULL\<close> column matches nothing.
\<close>

fun like_here :: "string \<Rightarrow> string \<Rightarrow> bool" where
  "like_here [] s = True"
| "like_here (p # ps) [] = False"
| "like_here (p # ps) (c # cs) =
     ((p = CHR ''_'' \<or> lower_char p = lower_char c) \<and> like_here ps cs)"

fun ilike :: "string \<Rightarrow> string \<Rightarrow> bool" where
  "ilike query [] = like_here query []"
| "ilike query (c # cs) = (like_here query (c # cs) \<or> ilike query cs)"

definition ilike_null :: "string \<Rightarrow> string option \<Rightarrow> bool" where
  "ilike_null query col = (case col of None \<Rightarrow> False | Some s \<Rightarrow> ilike query s)"

text \<open>
  \<open>search(query, limit=None, include_drafts=False)\<close>, the function that
  \<open>cache.memoize\<close> wraps, over the rows of the two tables. \<open>order_by\<close> is a stable sort
  on the key (SQL leaves the order of rows with equal keys open), titles are compared
  code point by code point, and \<open>if limit\<close> takes \<open>None\<close> and \<open>0\<close> for no limit.
\<close>

definition apply_limit :: "nat option \<Rightarrow> 'a list \<Rightarrow> 'a list" where
  "apply_limit limit rows =
     (case limit of None \<Rightarrow> rows | Some n \<Rightarrow> (if n = 0 then rows else take n rows))"

definition search :: "string \<Rightarrow> nat option \<Rightarrow> bool \<Rightarrow> post list \<Rightarrow> page list
    \<Rightarrow> post list \<times> page list" where
  "search query limit include_drafts all_posts all_pages =
     (if query = [] then ([], [])
      else
        let query = normalize_query query;
            posts_query = (if \<not> include_drafts then filter post_published all_posts
                           else all_posts);
            posts = sort_key (\<lambda>p. - post_created_at p)
                      (filter (\<lambda>p. ilike query (post_title p) \<or> ilike query (post_content p)
                                   \<or> ilike_null query (post_excerpt p)) posts_query);
            posts = apply_limit limit posts;
            pages_query = (if \<not> include_drafts then filter page_published all_pages
                           else all_pages);
            pages = sort_key page_title
                      (filter (\<lambda>p. ilike query (page_title p) \<or> ilike query (page_content p))
                         pages_query);
            pages = apply_limit limit pages
        in (posts, pages))"

section \<open>cache.py: the cache manager\<close>

text \<open>
  The backend \<open>self.cache\<close> is an object of the \<open>werkzeug\<close> library, which is not part
  of the repository: it is a parameter, a record of its two methods acting on a backend
  state \<open>'s\<close>. A method either raises (\<open>Inl\<close>) or returns; \<open>AttributeError\<close> is the
  error of reading an attribute that an object does not have. A cached value is a Python
  value: \<open>None\<close> is Python's \<open>None\<close>, which \<open>get\<close> also returns for a key that is absent
  or expired.
\<close>

datatype error = BackendUnavailable | AttributeError

record ('s, 'v) backend =
  backend_get :: "string \<Rightarrow> 's \<Rightarrow> (error + 'v option) \<times> 's"
  backend_set :: "string \<Rightarrow> 'v option \<Rightarrow> int option \<Rightarrow> 's \<Rightarrow> (error + unit) \<times> 's"

text \<open>\<open>Cache.get\<close> and \<open>Cache.set\<close> hand the call to the backend.\<close>

definition cache_get :: "('s, 'v) backend \<Rightarrow> string \<Rightarrow> 's \<Rightarrow> (error + 'v option) \<times> 's" where
  "cache_get cache key st = backend_get cache key st"

definition cache_set :: "('s, 'v) backend \<Rightarrow> string \<Rightarrow> 'v option \<Rightarrow> int option \<Rightarrow> 's
    \<Rightarrow> (error + unit) \<times> 's" where
  "cache_set cache key v timeout st = backend_set cache key v timeout st"

text \<open>
  \<open>_make_cache_key(f, key_prefix, *args, **kwargs)\<close>. The builtin \<open>str\<close> on the
  arguments and the digest \<open>hashlib.md5(...).hexdigest()\<close> are parameters;
  \<open>f.__name__\<close> is a string; \<open>kwargs\<close> is a list of pairs with distinct keys, which
  \<open>sorted\<close> orders by key; \<open>request\<close> is \<open>None\<close> outside a request and otherwise holds
  the pairs of \<open>request.args.items()\<close>. The f-string renders a value as \<open>str\<close> does.
  \<open>cache_key_string\<close> is the local \<open>key\<close> before it is hashed.
\<close>

definition key_parts :: "('a \<Rightarrow> string) \<Rightarrow> string \<Rightarrow> string \<Rightarrow> 'a list \<Rightarrow> (string \<times> 'a) list
    \<Rightarrow> (string \<times> string) list option \<Rightarrow> string list" where
  "key_parts str f_name key_prefix args kwargs request =
     [key_prefix, f_name]
     @ map str args
     @ map (\<lambda>(key, v). key @ '':'' @ str v) (sort_key fst kwargs)
     @ (case request of
          None \<Rightarrow> []
        | Some request_args \<Rightarrow> map (\<lambda>(key, v). key @ '':'' @ v) (sort_key fst request_args))"

definition cache_key_string :: "('a \<Rightarrow> string) \<Rightarrow> string \<Rightarrow> string \<Rightarrow> 'a list
    \<Rightarrow> (string \<times> 'a) list \<Rightarrow> (string \<times> string) list option \<Rightarrow> string" where
  "cache_key_string str f_name key_prefix args kwargs request =
     py_join ''_'' (key_parts str f_name key_prefix args kwargs request)"

definition make_cache_key :: "(string \<Rightarrow> string) \<Rightarrow> ('a \<Rightarrow> string) \<Rightarrow> string \<Rightarrow> string \<Rightarrow> 'a list
    \<Rightarrow> (string \<times> 'a) list \<Rightarrow> (string \<times> string) list option \<Rightarrow> string" where
  "make_cache_key md5 str f_name key_prefix args kwargs request =
     md5 (cache_key_string str f_name key_prefix args kwargs request)"

text \<open>Python values, as far as an example of \<open>str\<close> needs them.\<close>

datatype pyval = PyNone | PyBool bool | PyStr string

fun py_str :: "pyval \<Rightarrow> string" where
  "py_str PyNone = ''None''"
| "py_str (PyBool b) = (if b then ''True'' else ''False'')"
| "py_str (PyStr s) = s"

text \<open>
  The decorated functions of \<open>cached\<close> and \<open>memoize\<close>. The wrapped function \<open>f\<close> acts
  on a world \<open>'w\<close> of its own (whatever it reads and changes outside the cache) and
  returns a Python value; the decorated function acts on the backend state and the
  world. An error raised by \<open>get\<close> or \<open>set\<close> is not caught in the source, so it is the
  outcome of the call.
\<close>

definition cached :: "('s, 'v) backend \<Rightarrow> (string \<Rightarrow> string) \<Rightarrow> ('a \<Rightarrow> string) \<Rightarrow> int option
    \<Rightarrow> string \<Rightarrow> string \<Rightarrow> ('a list \<Rightarrow> (string \<times> 'a) list \<Rightarrow> 'w \<Rightarrow> 'v option \<times> 'w)
    \<Rightarrow> 'a list \<Rightarrow> (string \<times> 'a) list \<Rightarrow> (string \<times> string) list option
    \<Rightarrow> 's \<times> 'w \<Rightarrow> (error + 'v option) \<times> ('s \<times> 'w)" where
  "cached cache md5 str timeout key_prefix f_name f args kwargs request sw =
     (let cache_key = make_cache_key md5 str f_name key_prefix args kwargs request
      in case cache_get cache cache_key (fst sw) of
           (Inl e, st) \<Rightarrow> (Inl e, (st, snd sw))
         | (Inr (Some rv), st) \<Rightarrow> (Inr (Some rv), (st, snd sw))
         | (Inr None, st) \<Rightarrow>
             (case f args kwargs (snd sw) of
                (rv, w) \<Rightarrow>
                  (case cache_set cache cache_key rv timeout st of
                     (Inl e, st') \<Rightarrow> (Inl e, (st', w))
                   | (Inr _, st') \<Rightarrow> (Inr rv, (st', w)))))"

definition memoize :: "('s, 'v) backend \<Rightarrow> (string \<Rightarrow> string) \<Rightarrow> ('a \<Rightarrow> string) \<Rightarrow> int option
    \<Rightarrow> string \<Rightarrow> ('a list \<Rightarrow> (string \<times> 'a) list \<Rightarrow> 'w \<Rightarrow> 'v option \<times> 'w)
    \<Rightarrow> 'a list \<Rightarrow> (string \<times> 'a) list \<Rightarrow> (string \<times> string) list option
    \<Rightarrow> 's \<times> 'w \<Rightarrow> (error + 'v option) \<times> ('s \<times> 'w)" where
  "memoize cache md5 str timeout f_name f args kwargs request sw =
     (let cache_key = make_cache_key md5 str f_name ''memo'' args kwargs request
      in case cache_get cache cache_key (fst sw) of
           (Inl e, st) \<Rightarrow> (Inl e, (st, snd sw))
         | (Inr (Some rv), st) \<Rightarrow> (Inr (Some rv), (st, snd sw))
         | (Inr None, st) \<Rightarrow>
             (case f args kwargs (snd sw) of
                (rv, w) \<Rightarrow>
                  (case cache_set cache cache_key rv timeout st of
                     (Inl e, st') \<Rightarrow> (Inl e, (st', w))
                   | (Inr _, st') \<Rightarrow> (Inr rv, (st', w)))))"

text \<open>
  The two backends that \<open>init_app\<close> can set up, as far as \<open>invalidate\<close> and the
  scenarios need them; both are classes of the \<open>werkzeug\<close> library and not part of the
  repository. The state of a \<open>RedisCache\<close> is the list of the keys of the server with
  their values; a key is stored under \<open>key_prefix + key\<close>. The state of a
  \<open>FileSystemCache\<close> is its directory, the list of the file names with the value that
  each file holds; the file of a key is named by the hex digest of the key
  (\<open>_get_filename\<close>), which is the parameter \<open>md5\<close>. Expiry and the pruning of a full
  directory are left out. Neither method raises in this model.
\<close>

datatype 'v werkzeug_cache =
  RedisCache "(string \<times> 'v option) list"
| FileSystemCache "(string \<times> 'v option) list"

definition stored_name :: "(string \<Rightarrow> string) \<Rightarrow> string \<Rightarrow> 'v werkzeug_cache \<Rightarrow> string \<Rightarrow> string" where
  "stored_name md5 key_prefix st key =
     (case st of RedisCache kv \<Rightarrow> key_prefix @ key | FileSystemCache dir \<Rightarrow> md5 key)"

definition entries :: "'v werkzeug_cache \<Rightarrow> (string \<times> 'v option) list" where
  "entries st = (case st of RedisCache kv \<Rightarrow> kv | FileSystemCache dir \<Rightarrow> dir)"

definition with_entries :: "'v werkzeug_cache \<Rightarrow> (string \<times> 'v option) list \<Rightarrow> 'v werkzeug_cache" where
  "with_entries st es = (case st of RedisCache kv \<Rightarrow> RedisCache es | FileSystemCache dir \<Rightarrow> FileSystemCache es)"

definition werkzeug_backend :: "(string \<Rightarrow> string) \<Rightarrow> string \<Rightarrow> ('v werkzeug_cache, 'v) backend" where
  "werkzeug_backend md5 key_prefix =
     \<lparr>backend_get = (\<lambda>key st.
        (Inr (dict_get (entries st) (stored_name md5 key_prefix st key) None), st)),
      backend_set = (\<lambda>key v timeout st.
        (Inr (), with_entries st (dict_set (entries st) (stored_name md5 key_prefix st key) v)))\<rparr>"

text \<open>
  \<open>invalidate(pattern)\<close>. When the backend is a \<open>RedisCache\<close> the source reads
  \<open>self.cache.cache._client\<close>; a \<open>RedisCache\<close> has the attribute \<open>_client\<close> and no
  attribute \<open>cache\<close>, so the branch raises \<open>AttributeError\<close> before it asks the server
  for a key. Otherwise the loop goes through the names of the files of the directory
  and removes each file whose name has the pattern in it as a substring (\<open>pattern in
  filename\<close>).
\<close>

definition remove_file :: "string \<Rightarrow> (string \<times> 'v) list \<Rightarrow> (string \<times> 'v) list" where
  "remove_file filename dir = filter (\<lambda>(name, v). name \<noteq> filename) dir"

definition invalidate :: "string \<Rightarrow> 'v werkzeug_cache \<Rightarrow> error + 'v werkzeug_cache" where
  "invalidate pattern st =
     (case st of
        RedisCache kv \<Rightarrow> Inl AttributeError
      | FileSystemCache dir \<Rightarrow>
          Inr (FileSystemCache
            (foldl (\<lambda>d filename. if sublist pattern filename then remove_file filename d else d)
               dir (map fst dir))))"

text \<open>
  A backend that cannot be reached: each method raises. It stands for the remote
  service being down.
\<close>

definition unreachable_backend :: "(unit, 'v) backend" where
  "unreachable_backend =
     \<lparr>backend_get = (\<lambda>key st. (Inl BackendUnavailable, st)),
      backend_set = (\<lambda>key v timeout st. (Inl BackendUnavailable, st))\<rparr>"

text \<open>
  A backend whose \<open>get\<close> finds nothing and whose \<open>set\<close> raises: the service goes down
  between the two calls.
\<close>

definition write_failing_backend :: "(unit, 'v) backend" where
  "write_failing_backend =
     \<lparr>backend_get = (\<lambda>key st. (Inr None, st)),
      backend_set = (\<lambda>key v timeout st. (Inl BackendUnavailable, st))\<rparr>"

text \<open>
  A naming of files with the alphabet of a hex digest, two digits for each character
  of the key. It stands in for \<open>md5\<close> where a statement needs a concrete function.
\<close>

definition hex_digit :: "nat \<Rightarrow> char" where
  "hex_digit n = ''0123456789abcdef'' ! (n mod 16)"

definition hex_name :: "string \<Rightarrow> string" where
  "hex_name key = concat (map (\<lambda>c. [hex_digit (of_char c div 16), hex_digit (of_char c)]) key)"

text \<open>The characters of a hex digest.\<close>

definition is_hex :: "char \<Rightarrow> bool" where
  "is_hex c = (c \<in> set ''0123456789abcdef'')"


definition returns_count :: "'a list \<Rightarrow> (string \<times> 'a) list \<Rightarrow> nat \<Rightarrow> nat option \<times> nat" where
  "returns_count args kwargs counter = (Some (counter + 1), counter + 1)"


section \<open>Notions used in the statements\<close>

text \<open>
  A string is single-spaced when each whitespace character in it is a space that is not
  followed by another whitespace character.
\<close>

fun single_spaced :: "string \<Rightarrow> bool" where
  "single_spaced [] = True"
| "single_spaced [c] = (is_space c \<longrightarrow> c = CHR '' '')"
| "single_spaced (c # d # cs) =
     ((is_space c \<longrightarrow> c = CHR '' '' \<and> \<not> is_space d) \<and> single_spaced (d # cs))"

text \<open>
  The character class \<open>[a-z0-9\s-]\<close> in the spec's words, to be compared with what
  \<open>normalize_query\<close> lets through.
\<close>

definition spec_class :: "char \<Rightarrow> bool" where
  "spec_class c = (let n = (of_char c :: nat) in
     (97 \<le> n \<and> n \<le> 122) \<or> (48 \<le> n \<and> n \<le> 57) \<or> is_space c \<or> c = CHR ''-'')"

text \<open>
  The order of the ranking: a word that comes before another one is at least as frequent
  in the list of words, and when the two are equally frequent it was seen first.
\<close>

definition keyword_order :: "string list \<Rightarrow> string \<Rightarrow> string \<Rightarrow> bool" where
  "keyword_order ws a b =
     (count_list ws b \<le> count_list ws a
      \<and> (count_list ws a = count_list ws b \<longrightarrow> first_index ws a < first_index ws b))"

text \<open>A string without the whitespace at its end.\<close>

definition rstrip :: "string \<Rightarrow> string" where
  "rstrip s = rev (dropWhile is_space (rev s))"

section \<open>The text normalizer\<close>

lemma py_join_Cons:
  "py_join sep (p # ps) = (if ps = [] then p else p @ sep @ py_join sep ps)"
  by (cases ps) simp_all

lemma lower_char_idem: "lower_char (lower_char c) = lower_char c"
  by (auto simp: lower_char_def Let_def)

lemma is_space_blank: "is_space (CHR '' '')"
  by (simp add: is_space_def)

lemma lower_char_blank: "lower_char (CHR '' '') = CHR '' ''"
  by (simp add: lower_char_def)

lemma collapse_ws_Nil_iff: "collapse_ws s = [] \<longleftrightarrow> s = []"
  by (cases s) auto

lemma hd_collapse_ws: "s \<noteq> [] \<Longrightarrow> \<not> is_space (hd s) \<Longrightarrow> hd (collapse_ws s) = hd s"
  by (cases s) auto

lemma hd_dropWhile_space:
  "dropWhile is_space s \<noteq> [] \<Longrightarrow> \<not> is_space (hd (dropWhile is_space s))"
  using hd_dropWhile by blast

lemma single_spaced_Cons:
  "single_spaced (c # s) \<longleftrightarrow>
     (is_space c \<longrightarrow> c = CHR '' '' \<and> (s \<noteq> [] \<longrightarrow> \<not> is_space (hd s))) \<and> single_spaced s"
  by (cases s) auto

lemma single_spaced_collapse_ws: "single_spaced (collapse_ws s)"
proof (induction s rule: collapse_ws.induct)
  case 1
  show ?case by simp
next
  case (2 c cs)
  show ?case
  proof (cases "is_space c")
    case True
    let ?d = "dropWhile is_space cs"
    have "collapse_ws ?d \<noteq> [] \<Longrightarrow> \<not> is_space (hd (collapse_ws ?d))"
      using hd_collapse_ws [of ?d] hd_dropWhile_space [of cs]
      by (simp add: collapse_ws_Nil_iff)
    with True 2 show ?thesis
      by (simp add: single_spaced_Cons)
  next
    case False
    with 2 show ?thesis
      by (simp add: single_spaced_Cons)
  qed
qed

lemma collapse_ws_fixed: "single_spaced s \<Longrightarrow> collapse_ws s = s"
proof (induction s rule: single_spaced.induct)
  case 1
  show ?case by simp
next
  case (2 c)
  then show ?case by auto
next
  case (3 c d cs)
  then show ?case by auto
qed

lemma single_spaced_append:
  "single_spaced (xs @ ys) \<Longrightarrow> single_spaced xs \<and> single_spaced ys"
proof (induction xs rule: single_spaced.induct)
  case 1
  then show ?case by simp
next
  case (2 c)
  then show ?case by (cases ys) auto
next
  case (3 c d cs)
  then show ?case by auto
qed

lemma py_strip_prefix_of_dropWhile:
  "dropWhile is_space s = py_strip s @ rev (takeWhile is_space (rev (dropWhile is_space s)))"
  unfolding py_strip_def
  by (metis rev_append rev_rev_ident takeWhile_dropWhile_id)

lemma py_strip_decomp: "\<exists>pre post. s = pre @ py_strip s @ post"
proof -
  have "s = takeWhile is_space s @ dropWhile is_space s" by simp
  with py_strip_prefix_of_dropWhile [of s] show ?thesis by metis
qed

lemma single_spaced_py_strip: "single_spaced s \<Longrightarrow> single_spaced (py_strip s)"
  using py_strip_decomp [of s] single_spaced_append by metis

lemma set_py_strip: "set (py_strip s) \<subseteq> set s"
  using py_strip_decomp [of s] by (metis Un_iff set_append subsetI)

lemma length_py_strip: "length (py_strip s) \<le> length s"
proof -
  obtain pre post where "s = pre @ py_strip s @ post"
    using py_strip_decomp by blast
  then have "length s = length pre + length (py_strip s) + length post"
    by (metis length_append add.assoc)
  then show ?thesis by simp
qed

lemma hd_py_strip: "py_strip s \<noteq> [] \<Longrightarrow> \<not> is_space (hd (py_strip s))"
proof -
  assume ne: "py_strip s \<noteq> []"
  let ?d = "dropWhile is_space s"
  from ne py_strip_prefix_of_dropWhile [of s]
  have "?d \<noteq> []" and "hd ?d = hd (py_strip s)"
    by (metis append_is_Nil_conv, metis hd_append2)
  then show ?thesis using hd_dropWhile_space [of s] by simp
qed

lemma last_py_strip: "py_strip s \<noteq> [] \<Longrightarrow> \<not> is_space (last (py_strip s))"
proof -
  assume ne: "py_strip s \<noteq> []"
  let ?r = "dropWhile is_space (rev (dropWhile is_space s))"
  from ne have r: "?r \<noteq> []" by (simp add: py_strip_def)
  then have "\<not> is_space (hd ?r)" using hd_dropWhile by blast
  moreover have "last (py_strip s) = hd ?r"
    using r by (simp add: py_strip_def last_rev)
  ultimately show ?thesis by simp
qed

lemma py_strip_fixed:
  assumes "s \<noteq> [] \<Longrightarrow> \<not> is_space (hd s) \<and> \<not> is_space (last s)"
  shows "py_strip s = s"
proof (cases "s = []")
  case True
  then show ?thesis by (simp add: py_strip_def)
next
  case False
  have keep: "dropWhile is_space xs = xs" if "xs \<noteq> []" "\<not> is_space (hd xs)" for xs
    using that by (cases xs) auto
  from False assms have h: "\<not> is_space (hd s)" and l: "\<not> is_space (last s)" by auto
  from False l have "\<not> is_space (hd (rev s))" by (simp add: hd_rev)
  with False have "dropWhile is_space (rev s) = rev s" by (intro keep) simp_all
  moreover from h False have "dropWhile is_space s = s" by (rule keep [rotated])
  ultimately show ?thesis by (simp add: py_strip_def)
qed

lemma py_strip_idem: "py_strip (py_strip s) = py_strip s"
  by (rule py_strip_fixed) (simp add: hd_py_strip last_py_strip)

lemma set_collapse_ws: "set (collapse_ws s) \<subseteq> insert (CHR '' '') (set s)"
proof (induction s rule: collapse_ws.induct)
  case 1
  show ?case by simp
next
  case (2 c cs)
  have "set (dropWhile is_space cs) \<subseteq> set cs"
    by (simp add: set_dropWhileD subsetI)
  with 2 show ?case by auto
qed

lemma length_collapse_ws: "length (collapse_ws s) \<le> length s"
proof (induction s rule: collapse_ws.induct)
  case 1
  show ?case by simp
next
  case (2 c cs)
  have "length (dropWhile is_space cs) \<le> length cs"
    by (rule length_dropWhile_le)
  with 2 show ?case by auto
qed

lemma keep_char_blank: "keep_char (CHR '' '')"
  by (simp add: keep_char_def is_space_blank)

lemma normalize_query_chars:
  assumes "c \<in> set (normalize_query s)"
  shows "keep_char c \<and> lower_char c = c"
proof -
  let ?f = "filter keep_char (py_lower s)"
  from assms have "c \<in> set (collapse_ws ?f)"
    using set_py_strip by (auto simp: normalize_query_def)
  then have "c = CHR '' '' \<or> c \<in> set ?f"
    using set_collapse_ws [of ?f] by auto
  then show ?thesis
    by (auto simp: keep_char_blank lower_char_blank py_lower_def lower_char_idem)
qed

lemma single_spaced_normalize_query: "single_spaced (normalize_query s)"
  by (simp add: normalize_query_def single_spaced_py_strip single_spaced_collapse_ws)

lemma length_normalize_query: "length (normalize_query s) \<le> length s"
proof -
  have "length (normalize_query s) \<le> length (collapse_ws (filter keep_char (py_lower s)))"
    by (simp add: normalize_query_def length_py_strip)
  also have "\<dots> \<le> length (filter keep_char (py_lower s))"
    by (rule length_collapse_ws)
  also have "\<dots> \<le> length (py_lower s)"
    by (rule length_filter_le)
  finally show ?thesis by (simp add: py_lower_def)
qed

text \<open>
  C8. Normalization is idempotent: normalizing a normalized string gives it back.
  The output of \<open>normalize_query\<close> is already in lower case, holds only characters
  that the pattern keeps, is single-spaced and has no whitespace at either end, so
  none of the four steps changes it.
\<close>

theorem normalize_query_idempotent:
  "normalize_query (normalize_query s) = normalize_query s"
proof -
  let ?t = "normalize_query s"
  have 1: "py_lower ?t = ?t"
    unfolding py_lower_def using normalize_query_chars by (simp add: map_idI)
  have 2: "filter keep_char ?t = ?t"
    using normalize_query_chars by (simp add: filter_id_conv)
  have 3: "collapse_ws ?t = ?t"
    by (rule collapse_ws_fixed) (rule single_spaced_normalize_query)
  have 4: "py_strip ?t = ?t"
    by (simp add: normalize_query_def py_strip_idem)
  have "normalize_query ?t = py_strip (collapse_ws (filter keep_char (py_lower ?t)))"
    by (simp add: normalize_query_def)
  then show ?thesis using 1 2 3 4 by simp
qed

lemma single_spaced_no_double: "single_spaced s \<Longrightarrow> \<not> sublist [CHR '' '', CHR '' ''] s"
proof
  assume ss: "single_spaced s" and "sublist [CHR '' '', CHR '' ''] s"
  then obtain ps qs where "s = ps @ [CHR '' '', CHR '' ''] @ qs"
    by (auto simp: sublist_def)
  with ss have "single_spaced ([CHR '' '', CHR '' ''] @ qs)"
    using single_spaced_append by blast
  then show False by (simp add: is_space_blank)
qed

lemma upper_not_fixed:
  assumes "65 \<le> (of_char c :: nat)" and "(of_char c :: nat) \<le> 90"
  shows "lower_char c \<noteq> c"
proof
  assume "lower_char c = c"
  with assms have "char_of (of_char c + 32 :: nat) = c"
    by (simp add: lower_char_def)
  then have "(of_char (char_of (of_char c + 32 :: nat)) :: nat) = of_char c"
    by simp
  then have "(of_char c + 32) mod 256 = (of_char c :: nat)"
    by (simp only: of_char_of)
  with assms show False by simp
qed

lemma underscore_code: "(of_char c :: nat) = 95 \<Longrightarrow> c = CHR ''_''"
proof -
  assume "(of_char c :: nat) = 95"
  then have "char_of (of_char c :: nat) = char_of (95 :: nat)" by simp
  moreover have "char_of (95 :: nat) = CHR ''_''" by code_simp
  ultimately show ?thesis by simp
qed

lemma ascii_word_lower:
  assumes "is_word c" and "lower_char c = c" and "(of_char c :: nat) < 128"
  shows "spec_class c \<or> c = CHR ''_''"
proof -
  let ?n = "of_char c :: nat"
  from assms(2) have "\<not> (65 \<le> ?n \<and> ?n \<le> 90)"
    using upper_not_fixed by blast
  with assms(1,3) have "(48 \<le> ?n \<and> ?n \<le> 57) \<or> ?n = 95 \<or> (97 \<le> ?n \<and> ?n \<le> 122)"
    by (auto simp: is_word_def Let_def)
  then show ?thesis
    using underscore_code by (auto simp: spec_class_def Let_def)
qed

lemma normalize_query_alphabet:
  "normalize_query [] = [] \<and>
   (\<forall>c \<in> set (normalize_query s).
      (is_word c \<and> lower_char c = c) \<or> c = CHR '' '' \<or> c = CHR ''-'') \<and>
   (\<forall>c \<in> set (normalize_query s).
      (of_char c :: nat) < 128 \<longrightarrow> spec_class c \<or> c = CHR ''_'') \<and>
   \<not> sublist [CHR '' '', CHR '' ''] (normalize_query s) \<and>
   (normalize_query s \<noteq> [] \<longrightarrow>
      \<not> is_space (hd (normalize_query s)) \<and> \<not> is_space (last (normalize_query s)))"
proof -
  let ?t = "normalize_query s"
  have empty: "normalize_query [] = []"
    by (simp add: normalize_query_def py_lower_def py_strip_def)
  have chars: "(is_word c \<and> lower_char c = c) \<or> c = CHR '' '' \<or> c = CHR ''-''"
    if c: "c \<in> set ?t" for c
  proof (cases "is_space c")
    case True
    obtain ps qs where split: "?t = ps @ c # qs"
      using c by (meson split_list)
    have "single_spaced (c # qs)"
      using single_spaced_normalize_query [of s] single_spaced_append [of ps "c # qs"] split
      by simp
    with True have "c = CHR '' ''" by (simp add: single_spaced_Cons)
    then show ?thesis by simp
  next
    case False
    with normalize_query_chars [OF c] show ?thesis
      by (auto simp: keep_char_def)
  qed
  have ascii: "spec_class c \<or> c = CHR ''_''"
    if c: "c \<in> set ?t" and a: "(of_char c :: nat) < 128" for c
    using chars [OF c] ascii_word_lower [of c] a
    by (auto simp: spec_class_def is_space_blank)
  have nodouble: "\<not> sublist [CHR '' '', CHR '' ''] ?t"
    by (rule single_spaced_no_double) (rule single_spaced_normalize_query)
  have ends: "\<not> is_space (hd ?t) \<and> \<not> is_space (last ?t)" if "?t \<noteq> []"
    using that hd_py_strip last_py_strip by (simp add: normalize_query_def)
  from empty chars ascii nodouble ends show ?thesis by blast
qed

lemma filter_dropWhile_space:
  "filter (\<lambda>c. \<not> is_space c) (dropWhile is_space s) = filter (\<lambda>c. \<not> is_space c) s"
  by (induction s) simp_all

lemma filter_collapse_ws:
  "filter (\<lambda>c. \<not> is_space c) (collapse_ws s) = filter (\<lambda>c. \<not> is_space c) s"
proof (induction s rule: collapse_ws.induct)
  case 1
  show ?case by simp
next
  case (2 c cs)
  then show ?case
    by (simp add: is_space_blank filter_dropWhile_space)
qed

lemma filter_py_strip:
  "filter (\<lambda>c. \<not> is_space c) (py_strip s) = filter (\<lambda>c. \<not> is_space c) s"
proof -
  have "filter (\<lambda>c. \<not> is_space c) (py_strip s)
          = rev (filter (\<lambda>c. \<not> is_space c) (dropWhile is_space (rev (dropWhile is_space s))))"
    by (simp add: py_strip_def rev_filter)
  also have "\<dots> = rev (filter (\<lambda>c. \<not> is_space c) (rev (dropWhile is_space s)))"
    by (simp only: filter_dropWhile_space)
  also have "\<dots> = filter (\<lambda>c. \<not> is_space c) (dropWhile is_space s)"
    by (simp add: rev_filter)
  finally show ?thesis by (simp only: filter_dropWhile_space)
qed

lemma not_word_and_space: "is_word c \<Longrightarrow> \<not> is_space c"
  by (auto simp: is_word_def is_space_def Let_def)

lemma hyphen_not_space: "\<not> is_space (CHR ''-'')"
  by (simp add: is_space_def)

lemma normalize_query_letters:
  "filter (\<lambda>c. \<not> is_space c) (normalize_query s)
     = filter (\<lambda>c. is_word c \<or> c = CHR ''-'') (py_lower s)"
proof -
  have "filter (\<lambda>c. \<not> is_space c) (normalize_query s)
          = filter (\<lambda>c. \<not> is_space c) (filter keep_char (py_lower s))"
    by (simp add: normalize_query_def filter_py_strip filter_collapse_ws)
  also have "\<dots> = filter (\<lambda>c. is_word c \<or> c = CHR ''-'') (py_lower s)"
    unfolding filter_filter
    by (rule filter_cong) (auto simp: keep_char_def not_word_and_space hyphen_not_space)
  finally show ?thesis .
qed

lemma py_strip_rstrip: "py_strip s = rstrip (dropWhile is_space s)"
  by (simp add: py_strip_def rstrip_def)

lemma rstrip_append_keep:
  assumes "c \<in> set y" and "\<not> is_space c"
  shows "rstrip (a @ y) = a @ rstrip y"
proof -
  from assms have "dropWhile is_space (rev y @ rev a) = dropWhile is_space (rev y) @ rev a"
    by (intro dropWhile_append1 [of c]) simp_all
  then show ?thesis by (simp add: rstrip_def)
qed

lemma rstrip_append_spaces:
  assumes "\<And>c. c \<in> set y \<Longrightarrow> is_space c"
  shows "rstrip (a @ y) = rstrip a"
proof -
  have "dropWhile is_space (rev y @ rev a) = dropWhile is_space (rev a)"
    by (rule dropWhile_append2) (use assms in simp)
  then show ?thesis by (simp add: rstrip_def)
qed

lemma rstrip_fixed:
  assumes "a \<noteq> []" and "\<not> is_space (last a)"
  shows "rstrip a = a"
proof -
  from assms have "rev a \<noteq> []" and "\<not> is_space (hd (rev a))"
    by (simp_all add: hd_rev)
  then have "dropWhile is_space (rev a) = rev a"
    by (cases "rev a") simp_all
  then show ?thesis by (simp add: rstrip_def)
qed

lemma dropWhile_collapse_ws:
  "dropWhile is_space (collapse_ws s) = collapse_ws (dropWhile is_space s)"
proof (cases s)
  case Nil
  then show ?thesis by simp
next
  case (Cons c cs)
  show ?thesis
  proof (cases "is_space c")
    case True
    let ?d = "dropWhile is_space cs"
    have "dropWhile is_space (collapse_ws ?d) = collapse_ws ?d"
    proof (cases "?d = []")
      case True
      then show ?thesis by (simp del: dropWhile_eq_Nil_conv)
    next
      case False
      then have "\<not> is_space (hd ?d)" by (rule hd_dropWhile_space)
      with False have "\<not> is_space (hd (collapse_ws ?d))" and "collapse_ws ?d \<noteq> []"
        by (simp_all add: hd_collapse_ws collapse_ws_Nil_iff)
      then show ?thesis by (cases "collapse_ws ?d") simp_all
    qed
    with True Cons show ?thesis by (simp add: is_space_blank)
  next
    case False
    with Cons show ?thesis by simp
  qed
qed

lemma collapse_ws_word:
  "(\<And>c. c \<in> set w \<Longrightarrow> \<not> is_space c) \<Longrightarrow> collapse_ws (w @ r) = w @ collapse_ws r"
  by (induction w) simp_all

lemma collapse_ws_spaces:
  assumes "dropWhile is_space r = []"
  shows "c \<in> set (collapse_ws r) \<Longrightarrow> is_space c"
proof -
  assume c: "c \<in> set (collapse_ws r)"
  from assms have all: "\<And>x. x \<in> set r \<Longrightarrow> is_space x"
    by (simp add: dropWhile_eq_Nil_conv)
  from c set_collapse_ws [of r] have "c = CHR '' '' \<or> c \<in> set r" by auto
  with all show "is_space c" by (auto simp: is_space_blank)
qed

lemma py_split_Nil: "dropWhile is_space s = [] \<Longrightarrow> py_split s = []"
  by (simp add: py_split.simps [of s] del: dropWhile_eq_Nil_conv)

lemma py_split_Cons:
  "dropWhile is_space s = c # cs \<Longrightarrow>
     py_split s = (c # takeWhile (\<lambda>x. \<not> is_space x) cs)
                    # py_split (dropWhile (\<lambda>x. \<not> is_space x) cs)"
  by (simp add: py_split.simps [of s])

lemma strip_collapse_is_join_split:
  "py_strip (collapse_ws s) = py_join '' '' (py_split s)"
proof (induction s rule: py_split.induct)
  case (1 s)
  show ?case
  proof (cases "dropWhile is_space s")
    case Nil
    then have "collapse_ws (dropWhile is_space s) = []"
      by (simp del: dropWhile_eq_Nil_conv)
    then have "py_strip (collapse_ws s) = []"
      by (simp add: py_strip_rstrip dropWhile_collapse_ws rstrip_def)
    with Nil show ?thesis by (simp add: py_split_Nil)
  next
    case (Cons c cs)
    let ?w = "c # takeWhile (\<lambda>x. \<not> is_space x) cs"
    let ?r = "dropWhile (\<lambda>x. \<not> is_space x) cs"
    have c: "\<not> is_space c"
      using hd_dropWhile_space [of s] Cons by simp
    have w: "\<And>x. x \<in> set ?w \<Longrightarrow> \<not> is_space x"
      using c by (auto dest: set_takeWhileD)
    have "last ?w \<in> set ?w"
      by (rule last_in_set) simp
    then have lastw: "\<not> is_space (last ?w)"
      by (rule w)
    have split: "dropWhile is_space s = ?w @ ?r"
      using Cons by simp
    have cw: "collapse_ws (?w @ ?r) = ?w @ collapse_ws ?r"
      by (rule collapse_ws_word) (rule w)
    have lhs: "py_strip (collapse_ws s) = rstrip (?w @ collapse_ws ?r)"
      unfolding py_strip_rstrip dropWhile_collapse_ws split cw by (rule refl)
    have IH: "py_strip (collapse_ws ?r) = py_join '' '' (py_split ?r)"
      using Cons by (rule 1)
    have ps: "py_split s = ?w # py_split ?r"
      using Cons by (rule py_split_Cons)
    show ?thesis
    proof (cases "dropWhile is_space ?r = []")
      case True
      then have "rstrip (?w @ collapse_ws ?r) = rstrip ?w"
        by (intro rstrip_append_spaces collapse_ws_spaces)
      also have "\<dots> = ?w"
        using lastw by (intro rstrip_fixed) simp_all
      finally have "py_strip (collapse_ws s) = ?w"
        using lhs by simp
      moreover from True have "py_split ?r = []"
        by (rule py_split_Nil)
      ultimately show ?thesis
        by (simp add: ps)
    next
      case False
      then have rne: "?r \<noteq> []"
        by (metis dropWhile.simps(1))
      then have "is_space (hd ?r)"
        using hd_dropWhile [of "\<lambda>x. \<not> is_space x" cs] by blast
      with rne have cr: "collapse_ws ?r = CHR '' '' # collapse_ws (dropWhile is_space ?r)"
        by (metis collapse_ws.simps(2) dropWhile.simps(2) list.collapse)
      let ?X = "collapse_ws (dropWhile is_space ?r)"
      from False have xne: "?X \<noteq> []" by (simp add: collapse_ws_Nil_iff)
      from False have "\<not> is_space (hd (dropWhile is_space ?r))"
        by (rule hd_dropWhile_space)
      with False have hx: "\<not> is_space (hd ?X)"
        by (simp add: hd_collapse_ws)
      from xne have hxin: "hd ?X \<in> set ?X" by simp
      have "rstrip ((?w @ '' '') @ ?X) = (?w @ '' '') @ rstrip ?X"
        using hxin hx by (rule rstrip_append_keep)
      moreover have "rstrip ?X = py_strip (collapse_ws ?r)"
        by (simp only: py_strip_rstrip dropWhile_collapse_ws)
      ultimately have "rstrip (?w @ collapse_ws ?r) = ?w @ '' '' @ py_join '' '' (py_split ?r)"
        using IH cr by simp
      moreover have "py_split ?r \<noteq> []"
      proof -
        from False obtain c' cs' where "dropWhile is_space ?r = c' # cs'"
          by (auto simp: neq_Nil_conv simp del: dropWhile_eq_Nil_conv)
        then have "py_split ?r = (c' # takeWhile (\<lambda>x. \<not> is_space x) cs')
                      # py_split (dropWhile (\<lambda>x. \<not> is_space x) cs')"
          by (rule py_split_Cons)
        then show ?thesis by simp
      qed
      ultimately show ?thesis
        using lhs by (simp add: ps py_join_Cons)
    qed
  qed
qed

lemma normalize_query_join_split:
  "normalize_query s = py_join '' '' (py_split (filter keep_char (py_lower s)))"
  by (simp add: normalize_query_def strip_collapse_is_join_split)

text \<open>
  C7, as amended. The output of the normalizer is the words of the lower-cased input,
  after every character outside \<open>\w\<close>, \<open>\s\<close> and \<open>-\<close> is removed, joined by single
  spaces: a run of whitespace between two words leaves one space, and whitespace at either
  end leaves none. Its characters other than the space are the word characters and the
  hyphens of the lower-cased input, all of them and in their order, so the underscore and
  the letters and digits beyond ASCII are kept. They are word characters that \<open>lower\<close>
  leaves alone, the space and the hyphen; among the ASCII characters these are
  \<open>[a-z0-9 -]\<close> and the underscore. No two spaces are adjacent, the output neither
  starts nor ends with whitespace, and the empty input gives the empty output.
\<close>

theorem normalize_query_shape:
  "normalize_query [] = [] \<and>
   normalize_query s = py_join '' '' (py_split (filter keep_char (py_lower s))) \<and>
   filter (\<lambda>c. \<not> is_space c) (normalize_query s)
     = filter (\<lambda>c. is_word c \<or> c = CHR ''-'') (py_lower s) \<and>
   (\<forall>c \<in> set (normalize_query s).
      (is_word c \<and> lower_char c = c) \<or> c = CHR '' '' \<or> c = CHR ''-'') \<and>
   (\<forall>c \<in> set (normalize_query s).
      (of_char c :: nat) < 128 \<longrightarrow> spec_class c \<or> c = CHR ''_'') \<and>
   \<not> sublist [CHR '' '', CHR '' ''] (normalize_query s) \<and>
   (normalize_query s \<noteq> [] \<longrightarrow>
      \<not> is_space (hd (normalize_query s)) \<and> \<not> is_space (last (normalize_query s)))"
  using normalize_query_alphabet [of s] normalize_query_join_split [of s]
    normalize_query_letters [of s]
  by (intro conjI) blast+

text \<open>
  The theorem at the input \<open>A_b  C!\<close>, whose normal form is \<open>a_b c\<close>: the underscore
  is kept, the two spaces leave one, and the exclamation mark is removed.
\<close>

theorem normalize_query_shape_witness:
  "normalize_query ''A_b  C!'' = ''a_b c''
   \<and> filter (\<lambda>c. \<not> is_space c) (normalize_query ''A_b  C!'') = ''a_bc''
   \<and> CHR ''_'' \<in> set (normalize_query ''A_b  C!'') \<and> is_word (CHR ''_'')
   \<and> normalize_query ''A_b  C!'' \<noteq> [] \<and> \<not> is_space (hd (normalize_query ''A_b  C!''))"
proof -
  note t = normalize_query_shape [of "''A_b  C!''"]
  have words: "py_join '' '' (py_split (filter keep_char (py_lower ''A_b  C!''))) = ''a_b c''"
    by code_simp
  have letters: "filter (\<lambda>c. is_word c \<or> c = CHR ''-'') (py_lower ''A_b  C!'') = ''a_bc''"
    by code_simp
  from t words have v: "normalize_query ''A_b  C!'' = ''a_b c''"
    by (metis)
  from t letters
  have l: "filter (\<lambda>c. \<not> is_space c) (normalize_query ''A_b  C!'') = ''a_bc''"
    by (metis)
  have mem: "CHR ''_'' \<in> set (normalize_query ''A_b  C!'')"
    unfolding v by simp
  have ne: "normalize_query ''A_b  C!'' \<noteq> []"
    unfolding v by simp
  have c: "CHR ''_'' \<noteq> CHR '' '' \<and> CHR ''_'' \<noteq> CHR ''-''" by simp
  from t mem c have w: "is_word (CHR ''_'')" by blast
  from t ne have h: "\<not> is_space (hd (normalize_query ''A_b  C!''))" by blast
  from v l mem w ne h show ?thesis by (intro conjI)
qed

text \<open>
  The claim as the spec words it fails: the underscore is outside \<open>[a-z0-9\s-]\<close> and
  the normalizer returns \<open>a_b\<close> unchanged.
\<close>

theorem normalize_query_keeps_underscore:
  "normalize_query ''a_b'' = ''a_b'' \<and> \<not> spec_class (CHR ''_'')"
  by code_simp

section \<open>The keyword extractor\<close>

lemma keys_dict_set:
  "map fst (dict_set d k v) = (if k \<in> fst ` set d then map fst d else map fst d @ [k])"
proof (induction d)
  case Nil
  show ?case by simp
next
  case (Cons e d)
  obtain k' v' where e: "e = (k', v')" by (cases e)
  show ?case
  proof (cases "k' = k")
    case True
    with e show ?thesis by simp
  next
    case False
    with e Cons show ?thesis by (cases "k \<in> fst ` set d") auto
  qed
qed

lemma dom_dict_set: "fst ` set (dict_set d k v) = insert k (fst ` set d)"
proof -
  have "set (map fst (dict_set d k v)) = insert k (fst ` set d)"
    unfolding keys_dict_set by auto
  then show ?thesis by simp
qed

lemma map_of_dict_set: "map_of (dict_set d k v) = (map_of d)(k \<mapsto> v)"
  by (induction d) auto

lemma count_words_snoc:
  "count_words (ws @ [w]) =
     dict_set (count_words ws) w (dict_get (count_words ws) w 0 + 1)"
  by (simp add: count_words_def)

lemma keys_count_words: "fst ` set (count_words ws) = set ws"
proof (induction ws rule: rev_induct)
  case Nil
  show ?case by (simp add: count_words_def)
next
  case (snoc w ws)
  then show ?case
    by (simp add: count_words_snoc dom_dict_set)
qed

lemma distinct_count_words: "distinct (map fst (count_words ws))"
proof (induction ws rule: rev_induct)
  case Nil
  show ?case by (simp add: count_words_def)
next
  case (snoc w ws)
  then show ?case
    by (auto simp: count_words_snoc keys_dict_set)
qed

lemma map_of_count_words:
  "map_of (count_words ws) w = (if w \<in> set ws then Some (count_list ws w) else None)"
proof (induction ws rule: rev_induct)
  case Nil
  show ?case by (simp add: count_words_def)
next
  case (snoc x ws)
  then show ?case
    by (auto simp: count_words_snoc map_of_dict_set dict_get_def)
qed

lemma count_words_entry:
  assumes "(w, c) \<in> set (count_words ws)"
  shows "c = count_list ws w \<and> w \<in> set ws"
proof -
  from assms distinct_count_words have "map_of (count_words ws) w = Some c"
    by (simp add: map_of_is_SomeI)
  then show ?thesis
    by (simp add: map_of_count_words split: if_splits)
qed

lemma first_index_snoc_old: "a \<in> set ws \<Longrightarrow> first_index (ws @ [w]) a = first_index ws a"
  by (simp add: first_index_def)

lemma first_index_snoc_new:
  assumes "w \<notin> set ws"
  shows "first_index (ws @ [w]) w = length ws"
proof -
  have "takeWhile (\<lambda>x. x \<noteq> w) (ws @ [w]) = ws @ takeWhile (\<lambda>x. x \<noteq> w) [w]"
    by (rule takeWhile_append2) (use assms in auto)
  then show ?thesis by (simp add: first_index_def)
qed

lemma first_index_less: "a \<in> set ws \<Longrightarrow> first_index ws a < length ws"
  unfolding first_index_def
  by (induction ws) auto

lemma keys_count_words_first_seen:
  "sorted_wrt (\<lambda>a b. first_index ws a < first_index ws b) (map fst (count_words ws))"
proof (induction ws rule: rev_induct)
  case Nil
  show ?case by (simp add: count_words_def)
next
  case (snoc w ws)
  let ?keys = "map fst (count_words ws)"
  have old: "sorted_wrt (\<lambda>a b. first_index (ws @ [w]) a < first_index (ws @ [w]) b) ?keys"
    using snoc
  proof (rule sorted_wrt_mono_rel [rotated])
    fix a b
    assume "a \<in> set ?keys" "b \<in> set ?keys" "first_index ws a < first_index ws b"
    then show "first_index (ws @ [w]) a < first_index (ws @ [w]) b"
      using keys_count_words [of ws] by (simp add: first_index_snoc_old)
  qed
  show ?case
  proof (cases "w \<in> set ws")
    case True
    then have "map fst (count_words (ws @ [w])) = ?keys"
      using keys_count_words [of ws] by (simp add: count_words_snoc keys_dict_set)
    with old show ?thesis by simp
  next
    case False
    then have k: "map fst (count_words (ws @ [w])) = ?keys @ [w]"
      using keys_count_words [of ws] by (simp add: count_words_snoc keys_dict_set)
    have "first_index (ws @ [w]) a < first_index (ws @ [w]) w" if "a \<in> set ?keys" for a
      using that False keys_count_words [of ws]
      by (simp add: first_index_snoc_old first_index_snoc_new first_index_less)
    with old show ?thesis
      unfolding k by (simp add: sorted_wrt_append)
  qed
qed

lemma sorted_reverse_descending:
  "sorted_wrt (\<lambda>a b. key b \<le> key a) (sorted_reverse key xs)"
proof -
  have "sorted (map key (sort_key key (rev xs)))"
    by simp
  then have "sorted_wrt (\<lambda>a b. key a \<le> key b) (sort_key key (rev xs))"
    by (simp only: sorted_map)
  then show ?thesis
    by (simp add: sorted_reverse_def sorted_wrt_rev)
qed

lemma sorted_reverse_stable:
  "filter (\<lambda>y. key y = k) (sorted_reverse key xs) = filter (\<lambda>y. key y = k) xs"
proof -
  have "filter (\<lambda>y. key y = k) (sorted_reverse key xs)
          = rev (filter (\<lambda>y. key y = k) (sort_key key (rev xs)))"
    by (simp add: sorted_reverse_def rev_filter)
  also have "\<dots> = rev (filter (\<lambda>y. key y = k) (rev xs))"
    by (simp only: sort_key_stable)
  also have "\<dots> = filter (\<lambda>y. key y = k) xs"
    by (simp add: rev_filter)
  finally show ?thesis .
qed

lemma distinct_map_sorted_reverse:
  "distinct (map f (sorted_reverse key xs)) = distinct (map f xs)"
  by (simp add: sorted_reverse_def distinct_map)

lemma set_sorted_reverse: "set (sorted_reverse key xs) = set xs"
  by (simp add: sorted_reverse_def)

lemma ties_from_classes:
  "(\<And>k. sorted_wrt R (filter (\<lambda>y. f y = k) xs))
     \<Longrightarrow> sorted_wrt (\<lambda>a b. f a = f b \<longrightarrow> R a b) xs"
proof (induction xs)
  case Nil
  show ?case by simp
next
  case (Cons x xs)
  have tail: "sorted_wrt R (filter (\<lambda>y. f y = k) xs)" for k
    using Cons.prems [of k] by (cases "f x = k") simp_all
  have "R x y" if "y \<in> set xs" "f x = f y" for y
    using Cons.prems [of "f x"] that by simp
  with Cons.IH tail show ?case by simp
qed

lemma sorted_reverse_ties:
  assumes "sorted_wrt R xs"
  shows "sorted_wrt (\<lambda>a b. key a = key b \<longrightarrow> R a b) (sorted_reverse key xs)"
proof (rule ties_from_classes)
  fix k
  show "sorted_wrt R (filter (\<lambda>y. key y = k) (sorted_reverse key xs))"
    using assms by (simp add: sorted_reverse_stable sorted_wrt_filter)
qed

lemma sorted_wrt_both:
  "sorted_wrt P xs \<Longrightarrow> sorted_wrt Q xs \<Longrightarrow> sorted_wrt (\<lambda>a b. P a b \<and> Q a b) xs"
  by (induction xs) auto

lemma py_slice_take: "0 \<le> n \<Longrightarrow> py_slice xs 0 n = take (nat n) xs"
  by (simp add: py_slice_def slice_bound_def min_def)

lemma ranking_order:
  "sorted_wrt (keyword_order ws) (map fst (sorted_reverse snd (count_words ws)))"
proof -
  let ?D = "count_words ws"
  let ?S = "sorted_reverse snd ?D"
  let ?R = "\<lambda>a b. first_index ws (fst a) < first_index ws (fst b)"
  have "sorted_wrt ?R ?D"
    using keys_count_words_first_seen [of ws] by (simp add: sorted_wrt_map)
  then have "sorted_wrt (\<lambda>a b. snd a = snd b \<longrightarrow> ?R a b) ?S"
    by (rule sorted_reverse_ties)
  with sorted_reverse_descending [of snd ?D]
  have both: "sorted_wrt (\<lambda>a b. snd b \<le> snd a \<and> (snd a = snd b \<longrightarrow> ?R a b)) ?S"
    by (rule sorted_wrt_both)
  have "sorted_wrt (\<lambda>a b. keyword_order ws (fst a) (fst b)) ?S"
    using both
  proof (rule sorted_wrt_mono_rel [rotated])
    fix a b
    assume a: "a \<in> set ?S" and b: "b \<in> set ?S"
      and ab: "snd b \<le> snd a \<and> (snd a = snd b \<longrightarrow> ?R a b)"
    from a have "snd a = count_list ws (fst a)"
      using count_words_entry [of "fst a" "snd a" ws] by (simp add: set_sorted_reverse)
    moreover from b have "snd b = count_list ws (fst b)"
      using count_words_entry [of "fst b" "snd b" ws] by (simp add: set_sorted_reverse)
    ultimately show "keyword_order ws (fst a) (fst b)"
      using ab by (simp add: keyword_order_def)
  qed
  then show ?thesis by (simp add: sorted_wrt_map)
qed

lemma keyword_words_ok:
  "w \<in> set (keyword_words text min_length) \<Longrightarrow> min_length \<le> int (length w) \<and> w \<notin> set stop_words"
  by (simp add: keyword_words_def)

text \<open>
  C9. For a maximum that is not negative, the keyword extractor returns at most
  \<open>max_keywords\<close> terms; each of them is at least \<open>min_length\<close> long and is not a
  stop word; no term is returned twice; and the terms are in the order of descending
  frequency among the words that survive the filter, equally frequent terms in the
  order in which they are first seen.
\<close>

theorem extract_keywords_ranked:
  assumes "0 \<le> max_keywords"
  shows "int (length (extract_keywords text min_length max_keywords)) \<le> max_keywords
    \<and> (\<forall>w \<in> set (extract_keywords text min_length max_keywords).
          min_length \<le> int (length w) \<and> w \<notin> set stop_words)
    \<and> distinct (extract_keywords text min_length max_keywords)
    \<and> sorted_wrt (keyword_order (keyword_words text min_length))
         (extract_keywords text min_length max_keywords)"
proof -
  let ?ws = "keyword_words text min_length"
  let ?S = "sorted_reverse snd (count_words ?ws)"
  have eq: "extract_keywords text min_length max_keywords = take (nat max_keywords) (map fst ?S)"
    using assms by (simp add: extract_keywords_def py_slice_take take_map)
  have len: "int (length (extract_keywords text min_length max_keywords)) \<le> max_keywords"
    using assms unfolding eq by simp
  have "set (map fst ?S) = set ?ws"
    using keys_count_words [of ?ws] by (simp add: set_sorted_reverse)
  then have sub: "set (extract_keywords text min_length max_keywords) \<subseteq> set ?ws"
    unfolding eq using set_take_subset [of "nat max_keywords" "map fst ?S"] by simp
  have "distinct (map fst ?S)"
    using distinct_count_words [of ?ws] by (simp only: distinct_map_sorted_reverse)
  then have dist: "distinct (extract_keywords text min_length max_keywords)"
    unfolding eq by (rule distinct_take)
  have ord: "sorted_wrt (keyword_order ?ws) (extract_keywords text min_length max_keywords)"
    unfolding eq using ranking_order [of ?ws] by (rule sorted_wrt_take)
  have ok: "\<forall>w \<in> set (extract_keywords text min_length max_keywords).
          min_length \<le> int (length w) \<and> w \<notin> set stop_words"
    using sub keyword_words_ok by blast
  from len ok dist ord show ?thesis by simp
qed

text \<open>
  The theorem at a text with markup, a stop word and two ties: \<open>beta\<close> and \<open>alpha\<close>
  occur twice each, \<open>beta\<close> first; \<open>gamma\<close> and \<open>delta\<close> once each.
\<close>

theorem extract_keywords_ranked_witness:
  "(0 :: int) \<le> 3
   \<and> extract_keywords ''<b>beta</b> alpha beta the alpha gamma to delta'' 4 3
       = [''beta'', ''alpha'', ''gamma'']
   \<and> int (length (extract_keywords ''<b>beta</b> alpha beta the alpha gamma to delta'' 4 3)) \<le> 3
   \<and> distinct (extract_keywords ''<b>beta</b> alpha beta the alpha gamma to delta'' 4 3)
   \<and> sorted_wrt (keyword_order (keyword_words ''<b>beta</b> alpha beta the alpha gamma to delta'' 4))
         (extract_keywords ''<b>beta</b> alpha beta the alpha gamma to delta'' 4 3)"
proof -
  have v: "extract_keywords ''<b>beta</b> alpha beta the alpha gamma to delta'' 4 3
             = [''beta'', ''alpha'', ''gamma'']"
    by code_simp
  have h: "(0 :: int) \<le> 3" by simp
  note t = extract_keywords_ranked
    [OF h, of "''<b>beta</b> alpha beta the alpha gamma to delta''" 4]
  from t have a: "int (length
      (extract_keywords ''<b>beta</b> alpha beta the alpha gamma to delta'' 4 3)) \<le> 3"
    by (rule conjunct1)
  from t have d: "distinct
      (extract_keywords ''<b>beta</b> alpha beta the alpha gamma to delta'' 4 3)"
    by blast
  from t have s: "sorted_wrt
      (keyword_order (keyword_words ''<b>beta</b> alpha beta the alpha gamma to delta'' 4))
      (extract_keywords ''<b>beta</b> alpha beta the alpha gamma to delta'' 4 3)"
    by blast
  from h v a d s show ?thesis by (intro conjI)
qed

section \<open>The highlighter, the excerpt builder and the matcher at their failing inputs\<close>

text \<open>
  C1. The highlighter is to leave no raw \<open><\<close> or \<open>>\<close> of its input in the output. The
  source replaces \<open><\<close> by \<open><\<close> and \<open>>\<close> by \<open>>\<close>, which changes nothing: at the text
  \<open><script>alert(1)</script>\<close> and the query \<open>alert\<close> the tags of the input are
  in the output as they were, around the one marked term.
\<close>

theorem highlight_query_script_unescaped:
  "highlight_query ''<script>alert(1)</script>'' ''alert''
     = ''<script><mark>alert</mark>(1)</script>''"
  by code_simp

text \<open>
  C3. The excerpt is to be at most \<open>window + 6\<close> long and its flag is to be set when
  content was cut off on either side. At the input of the repository's own test
  (a text of 86 characters, the query \<open>search term\<close>, the window 50) the match is at
  position 50, the window runs from 25 to the end of the text, and the source returns
  64 characters, more than 56, with the flag \<open>False\<close> although 25 characters were cut off
  at the start.
\<close>

theorem get_excerpt_test_input:
  "get_excerpt
     ''This is a long piece of content that contains the search term somewhere in the middle.''
     ''search term'' 50
   = (''...ontent that contains the search term somewhere in the middle.'', False)
   \<and> length ''...ontent that contains the search term somewhere in the middle.'' = 64"
  by code_simp

lemma ilike_empty_pattern: "ilike [] s"
  by (cases s) simp_all

text \<open>
  C2. A query whose normal form is empty is to match nothing. The source tests the
  query for emptiness before it normalizes it: for a query that is not empty and whose
  normal form is, the pattern becomes \<open>%%\<close>, which every title matches, and the search
  returns every published post and page (every post and page when drafts are included).
\<close>

theorem search_empty_normal_form:
  assumes "query \<noteq> []" and "normalize_query query = []"
  shows "search query None include_drafts all_posts all_pages
     = (sort_key (\<lambda>p. - post_created_at p)
          (if include_drafts then all_posts else filter post_published all_posts),
        sort_key page_title
          (if include_drafts then all_pages else filter page_published all_pages))"
  using assms by (simp add: search_def apply_limit_def ilike_empty_pattern)

text \<open>The theorem at the query \<open>!!!\<close>, over two published posts, a draft and a page.\<close>

theorem search_punctuation_matches_all:
  "''!!!'' \<noteq> [] \<and> normalize_query ''!!!'' = []
   \<and> search ''!!!'' None False
     [\<lparr>post_title = ''Test Post'', post_content = ''Test content'', post_excerpt = None,
        post_published = True, post_created_at = 2\<rparr>,
      \<lparr>post_title = ''Draft'', post_content = ''Draft content'', post_excerpt = None,
        post_published = False, post_created_at = 3\<rparr>,
      \<lparr>post_title = ''Other'', post_content = ''Different content'', post_excerpt = None,
        post_published = True, post_created_at = 1\<rparr>]
     [\<lparr>page_title = ''About'', page_content = ''About us'', page_published = True\<rparr>]
   = ([\<lparr>post_title = ''Test Post'', post_content = ''Test content'', post_excerpt = None,
        post_published = True, post_created_at = 2\<rparr>,
       \<lparr>post_title = ''Other'', post_content = ''Different content'', post_excerpt = None,
        post_published = True, post_created_at = 1\<rparr>],
      [\<lparr>page_title = ''About'', page_content = ''About us'', page_published = True\<rparr>])"
proof -
  have ne: "''!!!'' \<noteq> []" by simp
  have norm: "normalize_query ''!!!'' = []" by code_simp
  note t = search_empty_normal_form [OF ne norm, of False]
  from ne norm show ?thesis
    unfolding t by simp
qed

section \<open>The decorators\<close>

lemma memoize_is_cached:
  "memoize cache md5 str timeout f_name f args kwargs request sw
     = cached cache md5 str timeout ''memo'' f_name f args kwargs request sw"
  by (simp add: memoize_def cached_def)

lemma cached_get_error:
  assumes "cache_get cache (make_cache_key md5 str f_name key_prefix args kwargs request) st
             = (Inl e, st1)"
  shows "cached cache md5 str timeout key_prefix f_name f args kwargs request (st, w)
           = (Inl e, (st1, w))"
  using assms by (simp add: cached_def)



lemma cached_set_error:
  assumes "cache_get cache (make_cache_key md5 str f_name key_prefix args kwargs request) st
             = (Inr None, st1)"
    and "f args kwargs w = (rv, w1)"
    and "cache_set cache (make_cache_key md5 str f_name key_prefix args kwargs request) rv
           timeout st1 = (Inl e, st2)"
  shows "cached cache md5 str timeout key_prefix f_name f args kwargs request (st, w)
           = (Inl e, (st2, w1))"
  using assms by (simp add: cached_def)

text \<open>
  C6, as amended. The source catches nothing around \<open>get\<close> and \<open>set\<close>. When \<open>get\<close>
  raises, the memoized call raises the same error and the wrapped function has not run:
  the world is as it was. When \<open>get\<close> finds nothing and \<open>set\<close> raises, the wrapped
  function has run once and the call raises the error instead of returning the result.
\<close>

theorem memoize_backend_error:
  "(cache_get cache (make_cache_key md5 str f_name ''memo'' args kwargs request) st
       = (Inl e, st1)
     \<longrightarrow> memoize cache md5 str timeout f_name f args kwargs request (st, w)
           = (Inl e, (st1, w)))
   \<and> (cache_get cache (make_cache_key md5 str f_name ''memo'' args kwargs request) st
         = (Inr None, st1)
       \<and> f args kwargs w = (rv, w1)
       \<and> cache_set cache (make_cache_key md5 str f_name ''memo'' args kwargs request) rv
           timeout st1 = (Inl e, st2)
     \<longrightarrow> memoize cache md5 str timeout f_name f args kwargs request (st, w)
           = (Inl e, (st2, w1)))"
  by (simp add: memoize_is_cached cached_get_error cached_set_error)

text \<open>
  The theorem at a backend that is down, and at one that goes down before \<open>set\<close>, with
  a wrapped function that counts its calls.
\<close>

theorem memoize_backend_error_witness:
  "memoize unreachable_backend hex_name py_str None ''f'' returns_count [] [] None ((), 0)
     = (Inl BackendUnavailable, ((), 0))
   \<and> memoize write_failing_backend hex_name py_str None ''f'' returns_count [] [] None ((), 0)
     = (Inl BackendUnavailable, ((), 1))"
proof -
  let ?key = "make_cache_key hex_name py_str ''f'' ''memo'' [] [] None"
  have g1: "cache_get (unreachable_backend :: (unit, nat) backend) ?key ()
              = (Inl BackendUnavailable, ())"
    by (simp add: cache_get_def unreachable_backend_def)
  have g2: "cache_get (write_failing_backend :: (unit, nat) backend) ?key () = (Inr None, ())"
    by (simp add: cache_get_def write_failing_backend_def)
  have f: "returns_count ([] :: pyval list) [] 0 = (Some 1, 1)"
    by (simp add: returns_count_def)
  have s2: "cache_set (write_failing_backend :: (unit, nat) backend) ?key (Some 1) None ()
              = (Inl BackendUnavailable, ())"
    by (simp add: cache_set_def write_failing_backend_def)
  from memoize_backend_error
    [of unreachable_backend hex_name py_str "''f''" "[]" "[]" None "()" BackendUnavailable "()"
        None returns_count 0]
    g1
  have a: "memoize unreachable_backend hex_name py_str None ''f'' returns_count [] [] None ((), 0)
     = (Inl BackendUnavailable, ((), 0 :: nat))"
    by blast
  from memoize_backend_error
    [of write_failing_backend hex_name py_str "''f''" "[]" "[]" None "()" BackendUnavailable "()"
        None returns_count 0 "Some 1" 1 "()"]
    g2 f s2
  have b: "memoize write_failing_backend hex_name py_str None ''f'' returns_count [] [] None ((), 0)
     = (Inl BackendUnavailable, ((), 1 :: nat))"
    by blast
  from a b show ?thesis by (rule conjI)
qed

text \<open>
  The claim as the spec words it fails: with the backend down the memoized call does not
  return the result \<open>1\<close> of the wrapped function, it raises, and the function has not
  been called.
\<close>

theorem memoize_propagates_backend_error:
  "memoize unreachable_backend hex_name py_str None ''f'' returns_count [PyStr ''x''] [] None ((), 0)
     = (Inl BackendUnavailable, ((), 0))
   \<and> returns_count [PyStr ''x''] [] 0 = (Some 1, 1)"
  by (simp add: memoize_def cache_get_def unreachable_backend_def returns_count_def)

lemma werkzeug_get:
  "cache_get (werkzeug_backend m p) k st
     = (Inr (dict_get (entries st) (stored_name m p st k) None), st)"
  by (simp add: cache_get_def werkzeug_backend_def)

lemma werkzeug_set:
  "cache_set (werkzeug_backend m p) k v t st
     = (Inr (), with_entries st (dict_set (entries st) (stored_name m p st k) v))"
  by (simp add: cache_set_def werkzeug_backend_def)








section \<open>Pattern invalidation\<close>

lemma invalidate_loop:
  "foldl (\<lambda>d filename. if sublist pattern filename then remove_file filename d else d) dir names
     = filter (\<lambda>(name, v). \<not> (name \<in> set names \<and> sublist pattern name)) dir"
proof (induction names arbitrary: dir)
  case Nil
  show ?case by simp
next
  case (Cons n names)
  have "filter (\<lambda>(name, v). \<not> (name \<in> set names \<and> sublist pattern name))
          (if sublist pattern n then remove_file n dir else dir)
        = filter (\<lambda>(name, v). \<not> (name \<in> set (n # names) \<and> sublist pattern name)) dir"
    by (auto simp: remove_file_def intro: filter_cong)
  with Cons show ?case by simp
qed

lemma invalidate_filesystem:
  "invalidate pattern (FileSystemCache dir)
     = Inr (FileSystemCache (filter (\<lambda>(name, v). \<not> sublist pattern name) dir))"
proof -
  have "filter (\<lambda>(name, v). \<not> (name \<in> set (map fst dir) \<and> sublist pattern name)) dir
          = filter (\<lambda>(name, v). \<not> sublist pattern name) dir"
    by (rule filter_cong) force+
  then show ?thesis by (simp add: invalidate_def invalidate_loop)
qed

lemma hex_has_no_colon: "is_hex c \<Longrightarrow> c \<noteq> CHR '':''"
  by (auto simp: is_hex_def)

lemma pattern_not_in_hex_name:
  assumes "\<forall>c \<in> set name. is_hex c"
  shows "\<not> sublist ''user:1:*'' name"
proof
  assume "sublist ''user:1:*'' name"
  then have "set ''user:1:*'' \<subseteq> set name" by (rule set_mono_sublist)
  then have "CHR '':'' \<in> set name" by simp
  with assms show False using hex_has_no_colon by blast
qed

lemma dict_get_dict_set_other:
  "dict_get (dict_set d k v) k' dflt = (if k' = k then v else dict_get d k' dflt)"
  by (simp add: dict_get_def map_of_dict_set)

lemma raw_names_lack_pattern:
  "\<not> sublist ''user:1:*'' ''user:1:profile'' \<and> \<not> sublist ''user:1:*'' ''user:1:posts''"
  by code_simp

text \<open>
  C5. After the three keys are set, invalidating \<open>user:1:*\<close> is to leave the first two
  absent and the third present. On the file system backend the loop of \<open>invalidate\<close>
  looks for the pattern in the names of the files, which are hex digests of the keys:
  no digest holds a colon, so \<open>invalidate\<close> returns with no file removed, the cache is
  as it was, and all three keys are still found in it. This holds for every naming of the files with hex digits, and
  for the keys stored under their own names as well, since \<open>user:1:*\<close> with its star is
  a substring of none of them.
\<close>

theorem invalidate_filesystem_scenario:
  assumes hex: "\<forall>k. \<forall>c \<in> set (md5 k). is_hex c"
  shows "let cache = werkzeug_backend md5 key_prefix;
             st1 = snd (cache_set cache ''user:1:profile'' (Some data) None (FileSystemCache []));
             st2 = snd (cache_set cache ''user:1:posts'' (Some data) None st1);
             st3 = snd (cache_set cache ''user:2:profile'' (Some data) None st2)
         in invalidate ''user:1:*'' st3 = Inr st3
            \<and> fst (cache_get cache ''user:1:profile'' st3) = Inr (Some data)
            \<and> fst (cache_get cache ''user:1:posts'' st3) = Inr (Some data)
            \<and> fst (cache_get cache ''user:2:profile'' st3) = Inr (Some data)"
proof -
  let ?d = "dict_set (dict_set (dict_set [] (md5 ''user:1:profile'') (Some data))
              (md5 ''user:1:posts'') (Some data)) (md5 ''user:2:profile'') (Some data)"
  have names: "fst ` set ?d \<subseteq> range md5"
    by (auto simp: dom_dict_set)
  have "\<forall>x \<in> set ?d. (\<lambda>(name, v). \<not> sublist ''user:1:*'' name) x"
  proof
    fix x
    assume x: "x \<in> set ?d"
    then have "fst x \<in> range md5"
      using names by blast
    then obtain k where k: "fst x = md5 k" by (rule rangeE)
    have "\<forall>c \<in> set (md5 k). is_hex c"
      by (rule hex [THEN spec])
    then have "\<not> sublist ''user:1:*'' (md5 k)"
      by (rule pattern_not_in_hex_name)
    with k show "(\<lambda>(name, v). \<not> sublist ''user:1:*'' name) x"
      by (simp add: case_prod_beta)
  qed
  then have "filter (\<lambda>(name, v). \<not> sublist ''user:1:*'' name) ?d = ?d"
    by (rule filter_True)
  then have inv: "invalidate ''user:1:*'' (FileSystemCache ?d) = Inr (FileSystemCache ?d)"
    by (simp only: invalidate_filesystem)
  have set_fs: "snd (cache_set (werkzeug_backend md5 key_prefix) k v None (FileSystemCache dir))
                  = FileSystemCache (dict_set dir (md5 k) v)" for k v dir
    by (simp add: werkzeug_set entries_def with_entries_def stored_name_def)
  have get_fs: "fst (cache_get (werkzeug_backend md5 key_prefix) k (FileSystemCache dir))
                  = Inr (dict_get dir (md5 k) None)" for k dir
    by (simp add: werkzeug_get entries_def stored_name_def)
  have found: "dict_get ?d (md5 ''user:1:profile'') None = Some data"
    "dict_get ?d (md5 ''user:1:posts'') None = Some data"
    "dict_get ?d (md5 ''user:2:profile'') None = Some data"
    by (simp_all add: dict_get_dict_set_other del: dict_set.simps)
  show ?thesis
    unfolding Let_def set_fs inv get_fs found by simp
qed

lemma hex_digit_is_hex: "is_hex (hex_digit n)"
proof -
  have "n mod 16 < length ''0123456789abcdef''" by simp
  then have "''0123456789abcdef'' ! (n mod 16) \<in> set ''0123456789abcdef''"
    by (rule nth_mem)
  then show ?thesis by (simp only: is_hex_def hex_digit_def)
qed

lemma hex_name_is_hex: "\<forall>c \<in> set (hex_name k). is_hex c"
  by (auto simp: hex_name_def hex_digit_is_hex)

text \<open>The theorem at the naming \<open>hex_name\<close>.\<close>

theorem invalidate_filesystem_scenario_witness:
  "invalidate ''user:1:*''
     (snd (cache_set (werkzeug_backend hex_name ''webbly_'') ''user:2:profile'' (Some ''data'') None
       (snd (cache_set (werkzeug_backend hex_name ''webbly_'') ''user:1:posts'' (Some ''data'') None
         (snd (cache_set (werkzeug_backend hex_name ''webbly_'') ''user:1:profile'' (Some ''data'')
            None (FileSystemCache [])))))))
   = Inr
     (snd (cache_set (werkzeug_backend hex_name ''webbly_'') ''user:2:profile'' (Some ''data'') None
       (snd (cache_set (werkzeug_backend hex_name ''webbly_'') ''user:1:posts'' (Some ''data'') None
         (snd (cache_set (werkzeug_backend hex_name ''webbly_'') ''user:1:profile'' (Some ''data'')
            None (FileSystemCache [])))))))
   \<and> fst (cache_get (werkzeug_backend hex_name ''webbly_'') ''user:1:profile''
     (snd (cache_set (werkzeug_backend hex_name ''webbly_'') ''user:2:profile'' (Some ''data'') None
       (snd (cache_set (werkzeug_backend hex_name ''webbly_'') ''user:1:posts'' (Some ''data'') None
         (snd (cache_set (werkzeug_backend hex_name ''webbly_'') ''user:1:profile'' (Some ''data'')
            None (FileSystemCache [])))))))) = Inr (Some ''data'')"
proof -
  have h: "\<forall>k. \<forall>c \<in> set (hex_name k). is_hex c"
    using hex_name_is_hex by blast
  note t = invalidate_filesystem_scenario
    [OF h, of "''webbly_''" "''data''", unfolded Let_def]
  from t show ?thesis by blast
qed

section \<open>The cache key\<close>

lemma py_join_split:
  "py_join sep (as @ x # bs)
     = concat (map (\<lambda>a. a @ sep) as) @ x @ (if bs = [] then [] else sep @ py_join sep bs)"
  by (induction as) (simp_all add: py_join_Cons)

lemma py_join_one_part:
  assumes "x \<noteq> y"
  shows "py_join sep (as @ x # bs) \<noteq> py_join sep (as @ y # bs)"
  using assms by (simp add: py_join_split)

lemma insort_key_map:
  assumes "\<And>x. f (g x) = f x"
  shows "insort_key f (g x) (map g ys) = map g (insort_key f x ys)"
  by (induction ys) (simp_all add: assms)

lemma sort_key_map:
  assumes "\<And>x. f (g x) = f x"
  shows "sort_key f (map g xs) = map g (sort_key f xs)"
  by (induction xs) (simp_all add: insort_key_map [of f g, OF assms])

lemma sort_key_one_value:
  assumes fresh: "k \<notin> fst ` set (kw1 @ kw2)"
  shows "\<exists>as bs. sort_key fst (kw1 @ (k, v) # kw2) = as @ (k, v) # bs
               \<and> sort_key fst (kw1 @ (k, v') # kw2) = as @ (k, v') # bs"
proof -
  let ?upd = "\<lambda>e. if fst e = k then (k, v') else e"
  let ?kw = "kw1 @ (k, v) # kw2"
  have fst_upd: "fst (?upd e) = fst e" for e :: "'a \<times> 'b"
    by simp
  have keep: "map ?upd es = es" if "k \<notin> fst ` set es" for es
    using that by (intro map_idI) force
  have "map ?upd ?kw = kw1 @ (k, v') # kw2"
    using fresh by (simp add: keep image_Un)
  then have s': "sort_key fst (kw1 @ (k, v') # kw2) = map ?upd (sort_key fst ?kw)"
    using sort_key_map [of fst ?upd ?kw] fst_upd by simp
  have "(k, v) \<in> set (sort_key fst ?kw)" by simp
  then obtain as bs where split: "sort_key fst ?kw = as @ (k, v) # bs"
    by (meson split_list)
  have none: "filter (\<lambda>e. fst e = k) es = []" if "k \<notin> fst ` set es" for es :: "('a \<times> 'b) list"
    using that by (induction es) auto
  have "filter (\<lambda>e. fst e = k) (sort_key fst ?kw) = filter (\<lambda>e. fst e = k) ?kw"
    by (rule sort_key_stable)
  also have "\<dots> = [(k, v)]"
    using fresh by (simp add: none image_Un)
  finally have "filter (\<lambda>e. fst e = k) as @ (k, v) # filter (\<lambda>e. fst e = k) bs = [(k, v)]"
    unfolding split by simp
  then have "filter (\<lambda>e. fst e = k) as = []" and "filter (\<lambda>e. fst e = k) bs = []"
    by (simp_all add: append_eq_Cons_conv)
  then have "k \<notin> fst ` set as" and "k \<notin> fst ` set bs"
    by (auto simp: filter_empty_conv)
  then have "map ?upd as = as" and "map ?upd bs = bs"
    by (simp_all add: keep)
  then have "map ?upd (sort_key fst ?kw) = as @ (k, v') # bs"
    unfolding split by simp
  with s' have "sort_key fst (kw1 @ (k, v') # kw2) = as @ (k, v') # bs"
    by (rule trans)
  with split show ?thesis by (intro exI conjI)
qed


lemma key_parts_one_arg:
  "\<exists>ps qs. key_parts str f_name key_prefix (as @ x # bs) kwargs request = ps @ str x # qs
         \<and> key_parts str f_name key_prefix (as @ y # bs) kwargs request = ps @ str y # qs"
proof -
  let ?ps = "[key_prefix, f_name] @ map str as"
  let ?qs = "map str bs @ map (\<lambda>(key, v). key @ '':'' @ str v) (sort_key fst kwargs)
     @ (case request of
          None \<Rightarrow> []
        | Some request_args \<Rightarrow> map (\<lambda>(key, v). key @ '':'' @ v) (sort_key fst request_args))"
  have "key_parts str f_name key_prefix (as @ z # bs) kwargs request = ?ps @ str z # ?qs" for z
    by (simp add: key_parts_def)
  then show ?thesis by (intro exI conjI)
qed

lemma key_parts_one_kwarg:
  assumes "k \<notin> fst ` set (kw1 @ kw2)"
  shows "\<exists>ps qs.
      key_parts str f_name key_prefix args (kw1 @ (k, v) # kw2) request
        = ps @ (k @ '':'' @ str v) # qs
    \<and> key_parts str f_name key_prefix args (kw1 @ (k, v') # kw2) request
        = ps @ (k @ '':'' @ str v') # qs"
proof -
  obtain as bs where s: "sort_key fst (kw1 @ (k, v) # kw2) = as @ (k, v) # bs"
    and s': "sort_key fst (kw1 @ (k, v') # kw2) = as @ (k, v') # bs"
    using sort_key_one_value [OF assms] by blast
  let ?r = "\<lambda>(key, v). key @ '':'' @ str v"
  let ?ps = "[key_prefix, f_name] @ map str args @ map ?r as"
  let ?qs = "map ?r bs
     @ (case request of
          None \<Rightarrow> []
        | Some request_args \<Rightarrow> map (\<lambda>(key, v). key @ '':'' @ v) (sort_key fst request_args))"
  have "key_parts str f_name key_prefix args (kw1 @ (k, v) # kw2) request
          = ?ps @ (k @ '':'' @ str v) # ?qs"
    unfolding key_parts_def s by simp
  moreover have "key_parts str f_name key_prefix args (kw1 @ (k, v') # kw2) request
          = ?ps @ (k @ '':'' @ str v') # ?qs"
    unfolding key_parts_def s' by simp
  ultimately show ?thesis by (intro exI conjI)
qed

lemma key_parts_one_request_arg:
  assumes "k \<notin> fst ` set (q1 @ q2)"
  shows "\<exists>ps qs.
      key_parts str f_name key_prefix args kwargs (Some (q1 @ (k, u) # q2))
        = ps @ (k @ '':'' @ u) # qs
    \<and> key_parts str f_name key_prefix args kwargs (Some (q1 @ (k, u') # q2))
        = ps @ (k @ '':'' @ u') # qs"
proof -
  obtain as bs where s: "sort_key fst (q1 @ (k, u) # q2) = as @ (k, u) # bs"
    and s': "sort_key fst (q1 @ (k, u') # q2) = as @ (k, u') # bs"
    using sort_key_one_value [OF assms] by blast
  let ?r = "\<lambda>(key, v). key @ '':'' @ v"
  let ?ps = "[key_prefix, f_name] @ map str args
     @ map (\<lambda>(key, v). key @ '':'' @ str v) (sort_key fst kwargs) @ map ?r as"
  let ?qs = "map ?r bs"
  have "key_parts str f_name key_prefix args kwargs (Some (q1 @ (k, u) # q2))
          = ?ps @ (k @ '':'' @ u) # ?qs"
    unfolding key_parts_def option.case s by simp
  moreover have "key_parts str f_name key_prefix args kwargs (Some (q1 @ (k, u') # q2))
          = ?ps @ (k @ '':'' @ u') # ?qs"
    unfolding key_parts_def option.case s' by simp
  ultimately show ?thesis by (intro exI conjI)
qed

lemma sort_key_same_dict:
  assumes "distinct (map fst kw)" and "distinct (map fst kw')" and "set kw = set kw'"
  shows "sort_key fst kw = sort_key fst kw'"
proof -
  let ?s = "sort_key fst kw" and ?s' = "sort_key fst kw'"
  have d: "distinct (map fst ?s)" "distinct (map fst ?s')"
    using assms(1,2) by (simp_all add: distinct_map)
  have "set (map fst ?s) = set (map fst ?s')"
    using assms(3) by simp
  moreover have "sorted (map fst ?s)" "sorted (map fst ?s')"
    by simp_all
  ultimately have keys: "map fst ?s = map fst ?s'"
    using d by (intro sorted_distinct_set_unique)
  have "inj_on fst (set ?s \<union> set ?s')"
    using assms(1,3) by (simp add: distinct_map)
  with keys show ?thesis
    by (simp add: inj_on_map_eq_map)
qed

text \<open>
  C4, as amended. The key is the digest of the string \<open>cache_key_string\<close>, so two
  calls get different keys unless their strings are equal or collide under the hash.
  The string changes when one positional argument is replaced by one with another
  rendering under \<open>str\<close>, when the value of one keyword argument is, and when the
  value of one request parameter is replaced by another one, everything else being the
  same. The key does not depend on the order in which the keyword arguments are given.
\<close>

theorem cache_key_one_component:
  "(str x \<noteq> str y \<longrightarrow>
      cache_key_string str f_name key_prefix (as @ x # bs) kwargs request
        \<noteq> cache_key_string str f_name key_prefix (as @ y # bs) kwargs request)
   \<and> (str v \<noteq> str v' \<and> k \<notin> fst ` set (kw1 @ kw2) \<longrightarrow>
      cache_key_string str f_name key_prefix args (kw1 @ (k, v) # kw2) request
        \<noteq> cache_key_string str f_name key_prefix args (kw1 @ (k, v') # kw2) request)
   \<and> (u \<noteq> u' \<and> q \<notin> fst ` set (q1 @ q2) \<longrightarrow>
      cache_key_string str f_name key_prefix args kwargs (Some (q1 @ (q, u) # q2))
        \<noteq> cache_key_string str f_name key_prefix args kwargs (Some (q1 @ (q, u') # q2)))
   \<and> (distinct (map fst kwargs) \<and> distinct (map fst kwargs') \<and> set kwargs = set kwargs' \<longrightarrow>
      make_cache_key md5 str f_name key_prefix args kwargs request
        = make_cache_key md5 str f_name key_prefix args kwargs' request)
   \<and> make_cache_key md5 str f_name key_prefix args kwargs request
        = md5 (cache_key_string str f_name key_prefix args kwargs request)"
proof (intro conjI impI)
  assume "str x \<noteq> str y"
  moreover obtain ps qs
    where "key_parts str f_name key_prefix (as @ x # bs) kwargs request = ps @ str x # qs"
      and "key_parts str f_name key_prefix (as @ y # bs) kwargs request = ps @ str y # qs"
    using key_parts_one_arg
      [where str = str and x = x and y = y and as = as and bs = bs and f_name = f_name
         and key_prefix = key_prefix and kwargs = kwargs and request = request]
    by blast
  ultimately show "cache_key_string str f_name key_prefix (as @ x # bs) kwargs request
        \<noteq> cache_key_string str f_name key_prefix (as @ y # bs) kwargs request"
    by (simp add: cache_key_string_def py_join_one_part)
next
  assume a: "str v \<noteq> str v' \<and> k \<notin> fst ` set (kw1 @ kw2)"
  then have fresh: "k \<notin> fst ` set (kw1 @ kw2)" by (rule conjunct2)
  obtain ps qs
    where "key_parts str f_name key_prefix args (kw1 @ (k, v) # kw2) request
             = ps @ (k @ '':'' @ str v) # qs"
      and "key_parts str f_name key_prefix args (kw1 @ (k, v') # kw2) request
             = ps @ (k @ '':'' @ str v') # qs"
    using key_parts_one_kwarg
      [OF fresh, where str = str and v = v and v' = v' and f_name = f_name
         and key_prefix = key_prefix and args = args and request = request]
    by blast
  moreover from a have "k @ '':'' @ str v \<noteq> k @ '':'' @ str v'" by simp
  ultimately show "cache_key_string str f_name key_prefix args (kw1 @ (k, v) # kw2) request
        \<noteq> cache_key_string str f_name key_prefix args (kw1 @ (k, v') # kw2) request"
    by (simp add: cache_key_string_def py_join_one_part)
next
  assume a: "u \<noteq> u' \<and> q \<notin> fst ` set (q1 @ q2)"
  then have fresh: "q \<notin> fst ` set (q1 @ q2)" by (rule conjunct2)
  obtain ps qs
    where "key_parts str f_name key_prefix args kwargs (Some (q1 @ (q, u) # q2))
             = ps @ (q @ '':'' @ u) # qs"
      and "key_parts str f_name key_prefix args kwargs (Some (q1 @ (q, u') # q2))
             = ps @ (q @ '':'' @ u') # qs"
    using key_parts_one_request_arg
      [OF fresh, where str = str and u = u and u' = u' and f_name = f_name
         and key_prefix = key_prefix and args = args and kwargs = kwargs]
    by blast
  moreover from a have "q @ '':'' @ u \<noteq> q @ '':'' @ u'" by simp
  ultimately show "cache_key_string str f_name key_prefix args kwargs (Some (q1 @ (q, u) # q2))
        \<noteq> cache_key_string str f_name key_prefix args kwargs (Some (q1 @ (q, u') # q2))"
    by (simp add: cache_key_string_def py_join_one_part)
next
  assume "distinct (map fst kwargs) \<and> distinct (map fst kwargs') \<and> set kwargs = set kwargs'"
  then have "sort_key fst kwargs = sort_key fst kwargs'"
    using sort_key_same_dict by blast
  then show "make_cache_key md5 str f_name key_prefix args kwargs request
        = make_cache_key md5 str f_name key_prefix args kwargs' request"
    by (simp add: make_cache_key_def cache_key_string_def key_parts_def)
next
  show "make_cache_key md5 str f_name key_prefix args kwargs request
        = md5 (cache_key_string str f_name key_prefix args kwargs request)"
    by (simp add: make_cache_key_def)
qed

text \<open>
  The theorem at a call of \<open>search\<close>: another query, another limit, and the two keyword
  arguments in either order.
\<close>

theorem cache_key_one_component_witness:
  "cache_key_string py_str ''search'' ''memo'' [PyStr ''cats''] [(''limit'', PyStr ''5'')] None
     \<noteq> cache_key_string py_str ''search'' ''memo'' [PyStr ''dogs''] [(''limit'', PyStr ''5'')] None
   \<and> cache_key_string py_str ''search'' ''memo'' [PyStr ''cats''] [(''limit'', PyStr ''5'')] None
     \<noteq> cache_key_string py_str ''search'' ''memo'' [PyStr ''cats''] [(''limit'', PyStr ''9'')] None
   \<and> make_cache_key hex_name py_str ''search'' ''memo'' []
        [(''limit'', PyStr ''5''), (''drafts'', PyBool True)] None
     = make_cache_key hex_name py_str ''search'' ''memo'' []
        [(''drafts'', PyBool True), (''limit'', PyStr ''5'')] None"
proof -
  have 1: "py_str (PyStr ''cats'') \<noteq> py_str (PyStr ''dogs'')" by simp
  have 2: "py_str (PyStr ''5'') \<noteq> py_str (PyStr ''9'')
             \<and> ''limit'' \<notin> fst ` set (([] :: (string \<times> pyval) list) @ [])" by simp
  have 3: "distinct (map fst [(''limit'', PyStr ''5''), (''drafts'', PyBool True)])
     \<and> distinct (map fst [(''drafts'', PyBool True), (''limit'', PyStr ''5'')])
     \<and> set [(''limit'', PyStr ''5''), (''drafts'', PyBool True)]
         = set [(''drafts'', PyBool True), (''limit'', PyStr ''5'')]"
    by auto
  have a: "cache_key_string py_str ''search'' ''memo'' [PyStr ''cats''] [(''limit'', PyStr ''5'')] None
     \<noteq> cache_key_string py_str ''search'' ''memo'' [PyStr ''dogs''] [(''limit'', PyStr ''5'')] None"
    using cache_key_one_component
      [where str = py_str and x = "PyStr ''cats''" and y = "PyStr ''dogs''" and as = "[]"
         and bs = "[]" and f_name = "''search''" and key_prefix = "''memo''"
         and kwargs = "[(''limit'', PyStr ''5'')]" and request = None, THEN conjunct1] 1
    by simp
  have b: "cache_key_string py_str ''search'' ''memo'' [PyStr ''cats''] [(''limit'', PyStr ''5'')] None
     \<noteq> cache_key_string py_str ''search'' ''memo'' [PyStr ''cats''] [(''limit'', PyStr ''9'')] None"
    using cache_key_one_component
      [where str = py_str and v = "PyStr ''5''" and v' = "PyStr ''9''" and k = "''limit''"
         and ?kw1.0 = "[]" and ?kw2.0 = "[]" and f_name = "''search''" and key_prefix = "''memo''"
         and args = "[PyStr ''cats'']" and request = None,
         THEN conjunct2, THEN conjunct1] 2
    by simp
  have c: "make_cache_key hex_name py_str ''search'' ''memo'' []
        [(''limit'', PyStr ''5''), (''drafts'', PyBool True)] None
     = make_cache_key hex_name py_str ''search'' ''memo'' []
        [(''drafts'', PyBool True), (''limit'', PyStr ''5'')] None"
    using cache_key_one_component
      [where str = py_str and ?md5.0 = hex_name and f_name = "''search''" and key_prefix = "''memo''"
         and args = "[]" and request = None
         and kwargs = "[(''limit'', PyStr ''5''), (''drafts'', PyBool True)]"
         and kwargs' = "[(''drafts'', PyBool True), (''limit'', PyStr ''5'')]",
         THEN conjunct2, THEN conjunct2, THEN conjunct2, THEN conjunct1] 3
    by blast
  from a b c show ?thesis by (intro conjI)
qed

text \<open>
  The claim as the spec words it fails: the arguments \<open>None\<close> and \<open>'None'\<close> are
  different and give the same string, hence the same key under every hash.
\<close>

theorem cache_key_same_rendering:
  "cache_key_string py_str ''f'' ''memo'' [PyNone] [] None
     = cache_key_string py_str ''f'' ''memo'' [PyStr ''None''] [] None
   \<and> PyNone \<noteq> PyStr ''None''
   \<and> make_cache_key hex_name py_str ''f'' ''memo'' [PyNone] [] None
     = make_cache_key hex_name py_str ''f'' ''memo'' [PyStr ''None''] [] None"
  by (simp add: make_cache_key_def cache_key_string_def key_parts_def)

end
